theory Spec2Isabelle
  imports Main "HOL-Library.Monad_Syntax"
begin

section \<open>Strings of the source language\<close>

text \<open>
  The formatter of \<^verbatim>\<open>src/src/components/FormattedContent.tsx\<close> works on JavaScript
  strings: sequences of UTF-16 code units. The bullet character U+2022 and the Unicode
  white space that \<^verbatim>\<open>\s\<close> and \<^verbatim>\<open>trim()\<close> recognise lie outside the 8-bit
  \<^typ>\<open>char\<close>, so a code unit is modelled by its number. Code units are only compared, never
  computed with.
\<close>

type_synonym jschar = nat
type_synonym jsstring = "jschar list"

definition str :: "string \<Rightarrow> jsstring" where
  "str s = map of_char s"

abbreviation NL :: jschar where "NL \<equiv> 10"
abbreviation SPACE :: jschar where "SPACE \<equiv> 32"
abbreviation HASH :: jschar where "HASH \<equiv> 35"
abbreviation RPAREN :: jschar where "RPAREN \<equiv> 41"
abbreviation STAR :: jschar where "STAR \<equiv> 42"
abbreviation DASH :: jschar where "DASH \<equiv> 45"
abbreviation DOT :: jschar where "DOT \<equiv> 46"
abbreviation COLON :: jschar where "COLON \<equiv> 58"
abbreviation BULLET :: jschar where "BULLET \<equiv> 8226"

text \<open>
  The character classes of ECMAScript regular expressions (without the \<^verbatim>\<open>u\<close> and
  \<^verbatim>\<open>s\<close> flags). \<^verbatim>\<open>\s\<close> is WhiteSpace together with LineTerminator, the same set
  that \<^verbatim>\<open>String.prototype.trim\<close> strips; \<^verbatim>\<open>.\<close> is every code unit but a
  LineTerminator; \<^verbatim>\<open>\d\<close> is an ASCII digit.
\<close>

definition is_line_terminator :: "jschar \<Rightarrow> bool" where
  "is_line_terminator c = (c = 10 \<or> c = 13 \<or> c = 8232 \<or> c = 8233)"

definition is_space :: "jschar \<Rightarrow> bool" where
  "is_space c =
     (c = 9 \<or> c = 10 \<or> c = 11 \<or> c = 12 \<or> c = 13 \<or> c = 32 \<or> c = 160 \<or> c = 5760
      \<or> (8192 \<le> c \<and> c \<le> 8202) \<or> c = 8232 \<or> c = 8233 \<or> c = 8239 \<or> c = 8287
      \<or> c = 12288 \<or> c = 65279)"

definition is_digit :: "jschar \<Rightarrow> bool" where
  "is_digit c = (48 \<le> c \<and> c \<le> 57)"

definition is_star :: "jschar \<Rightarrow> bool" where
  "is_star c = (c = STAR)"

definition is_dot_char :: "jschar \<Rightarrow> bool" where
  "is_dot_char c = (if is_line_terminator c then False else True)"

text \<open>\<^verbatim>\<open>String.prototype.trim\<close>.\<close>

definition trim :: "jsstring \<Rightarrow> jsstring" where
  "trim s = rev (dropWhile is_space (rev (dropWhile is_space s)))"

text \<open>\<^verbatim>\<open>s.split('\n')\<close>: the pieces between line feeds; never an empty array.\<close>

fun split_nl :: "jsstring \<Rightarrow> jsstring list" where
  "split_nl [] = [[]]"
| "split_nl (c # cs) =
     (if c = NL then [] # split_nl cs
      else (case split_nl cs of
              [] \<Rightarrow> [[c]]
            | l # ls \<Rightarrow> (c # l) # ls))"

section \<open>Regular-expression replacement\<close>

text \<open>
  A regular expression is modelled by its matcher at one position: given the code unit
  before the position (\<open>None\<close> at the start of the input) and the rest of the input from
  the position on, the matcher returns the length of the match the backtracking engine
  finds there, or \<open>None\<close>. The code unit before the position serves the assertions
  \<^verbatim>\<open>^\<close> and \<^verbatim>\<open>(?<!...)\<close>.
\<close>

type_synonym matcher = "jschar option \<Rightarrow> jsstring \<Rightarrow> nat option"

text \<open>
  \<^verbatim>\<open>s.replace(/re/g, rep)\<close> for a replacement text without \<^verbatim>\<open>$\<close> patterns: the
  leftmost match is replaced and the search goes on behind it; after an empty match the
  engine copies one code unit and advances.
\<close>

function replace_g :: "matcher \<Rightarrow> jsstring \<Rightarrow> jschar option \<Rightarrow> jsstring \<Rightarrow> jsstring" where
  "replace_g m rep prev [] = (case m prev [] of None \<Rightarrow> [] | Some n \<Rightarrow> rep)"
| "replace_g m rep prev (c # cs) =
     (case m prev (c # cs) of
        None \<Rightarrow> c # replace_g m rep (Some c) cs
      | Some n \<Rightarrow>
          if n = 0 then rep @ c # replace_g m rep (Some c) cs
          else rep @ replace_g m rep (Some (last (take n (c # cs)))) (drop n (c # cs)))"
  by pat_completeness auto
termination
  by (relation "measure (\<lambda>(m, rep, prev, s). length s)") auto

text \<open>\<^verbatim>\<open>s.replace(/re/, rep)\<close> without the \<^verbatim>\<open>g\<close> flag: only the leftmost match.\<close>

fun replace_first :: "matcher \<Rightarrow> jsstring \<Rightarrow> jschar option \<Rightarrow> jsstring \<Rightarrow> jsstring" where
  "replace_first m rep prev [] = (case m prev [] of None \<Rightarrow> [] | Some n \<Rightarrow> rep)"
| "replace_first m rep prev (c # cs) =
     (case m prev (c # cs) of
        None \<Rightarrow> c # replace_first m rep (Some c) cs
      | Some n \<Rightarrow> rep @ drop n (c # cs))"

subsection \<open>The expressions of \<^verbatim>\<open>cleanContent\<close>\<close>

text \<open>
  \<^verbatim>\<open>/^\*\s+/gm\<close>: with the \<^verbatim>\<open>m\<close> flag \<^verbatim>\<open>^\<close> holds at the start of the input and
  behind a LineTerminator. The greedy \<^verbatim>\<open>\s+\<close> takes the whole run of white space.
\<close>

definition re_line_star :: matcher where
  "re_line_star prev s =
     (case s of
        [] \<Rightarrow> None
      | c # r \<Rightarrow>
          if (case prev of None \<Rightarrow> True | Some p \<Rightarrow> is_line_terminator p)
             \<and> c = STAR \<and> 1 \<le> length (takeWhile is_space r)
          then Some (1 + length (takeWhile is_space r))
          else None)"

text \<open>\<^verbatim>\<open>/\*{3,}/g\<close> and \<^verbatim>\<open>/\*\*\*+/g\<close>: a run of at least three asterisks, taken whole.\<close>

definition re_stars3 :: matcher where
  "re_stars3 prev s =
     (if 3 \<le> length (takeWhile is_star s) then Some (length (takeWhile is_star s)) else None)"

text \<open>
  \<^verbatim>\<open>/\*\s*\*\s*\*/g\<close>: three asterisks with any white space between them. Behind each
  greedy \<^verbatim>\<open>\s*\<close> an asterisk must follow, so the run of white space is taken whole.
\<close>

definition re_star_sep :: matcher where
  "re_star_sep prev s =
     (case s of
        [] \<Rightarrow> None
      | c1 # r1 \<Rightarrow>
          if c1 = STAR then
            (case dropWhile is_space r1 of
               [] \<Rightarrow> None
             | c2 # r2 \<Rightarrow>
                 if c2 = STAR then
                   (case dropWhile is_space r2 of
                      [] \<Rightarrow> None
                    | c3 # r3 \<Rightarrow>
                        if c3 = STAR
                        then Some (3 + length (takeWhile is_space r1)
                                     + length (takeWhile is_space r2))
                        else None)
                 else None)
          else None)"

text \<open>\<^verbatim>\<open>/\s{3,}/g\<close>: a run of at least three white-space code units, taken whole.\<close>

definition re_spaces3 :: matcher where
  "re_spaces3 prev s =
     (if 3 \<le> length (takeWhile is_space s) then Some (length (takeWhile is_space s)) else None)"

text \<open>\<^verbatim>\<open>/\*+:/g\<close>: a run of asterisks and the colon behind it.\<close>

definition re_stars_colon :: matcher where
  "re_stars_colon prev s =
     (if 1 \<le> length (takeWhile is_star s) then
        (case dropWhile is_star s of
           [] \<Rightarrow> None
         | c # r \<Rightarrow> if c = COLON then Some (length (takeWhile is_star s) + 1) else None)
      else None)"

text \<open>\<^verbatim>\<open>/:\*+/g\<close>: a colon and the run of asterisks behind it.\<close>

definition re_colon_stars :: matcher where
  "re_colon_stars prev s =
     (case s of
        [] \<Rightarrow> None
      | c # r \<Rightarrow>
          if c = COLON \<and> 1 \<le> length (takeWhile is_star r)
          then Some (1 + length (takeWhile is_star r))
          else None)"

definition cleanContent :: "jsstring \<Rightarrow> jsstring" where
  "cleanContent text =
     replace_g re_colon_stars [COLON] None
       (replace_g re_stars_colon [COLON] None
         (replace_g re_spaces3 [SPACE, SPACE] None
           (replace_g re_star_sep [] None
             (replace_g re_stars3 [] None
               (replace_g re_line_star [BULLET, SPACE] None text)))))"

subsection \<open>The expressions of the line classifier\<close>

text \<open>
  Each of these is used with \<^verbatim>\<open>String.prototype.match\<close>, has no \<^verbatim>\<open>g\<close> or
  \<^verbatim>\<open>m\<close> flag and starts with \<^verbatim>\<open>^\<close>: it can match at the start of the line only,
  and \<^verbatim>\<open>$\<close> holds at the end of the line only. The result is the text of the capture
  group, or \<open>None\<close> for \<^verbatim>\<open>null\<close>.

  \<^verbatim>\<open>\s+(.+)$\<close>, the common tail: the greedy \<^verbatim>\<open>\s+\<close> first takes the whole run of
  white space, and \<^verbatim>\<open>(.+)$\<close> must then take all the rest, which may hold no
  LineTerminator. When nothing is left behind the white space, the engine backtracks and
  gives the last code unit of the run to the group.
\<close>

definition re_space_content :: "jsstring \<Rightarrow> jsstring option" where
  "re_space_content r =
     (case takeWhile is_space r of
        [] \<Rightarrow> None
      | w # ws \<Rightarrow>
          (case dropWhile is_space r of
             [] \<Rightarrow> if ws = [] then None
                   else if is_line_terminator (last ws) then None
                   else Some [last ws]
           | c # cs \<Rightarrow> if list_all is_dot_char (c # cs) then Some (c # cs) else None))"

text \<open>\<^verbatim>\<open>/^##\s+(.+)$/\<close>\<close>

definition h2Match :: "jsstring \<Rightarrow> jsstring option" where
  "h2Match line =
     (case line of
        a # b # r \<Rightarrow> if a = HASH \<and> b = HASH then re_space_content r else None
      | _ \<Rightarrow> None)"

text \<open>\<^verbatim>\<open>/^###\s+(.+)$/\<close>\<close>

definition h3Match :: "jsstring \<Rightarrow> jsstring option" where
  "h3Match line =
     (case line of
        a # b # c # r \<Rightarrow>
          if a = HASH \<and> b = HASH \<and> c = HASH then re_space_content r else None
      | _ \<Rightarrow> None)"

text \<open>
  \<^verbatim>\<open>/^\*\*([^*]+)\*\*:?\s*$/\<close>: the group takes the whole run of code units other than
  an asterisk (two asterisks must follow it); a colon that follows is taken (without it
  \<^verbatim>\<open>\s*$\<close> could not reach the end); the rest must be white space.
\<close>

definition boldHeaderMatch :: "jsstring \<Rightarrow> jsstring option" where
  "boldHeaderMatch line =
     (case line of
        a # b # r \<Rightarrow>
          if a = STAR \<and> b = STAR \<and> 1 \<le> length (takeWhile (\<lambda>c. c \<noteq> STAR) r) then
            (case dropWhile (\<lambda>c. c \<noteq> STAR) r of
               c # d # t \<Rightarrow>
                 if c = STAR \<and> d = STAR
                    \<and> list_all is_space (case t of [] \<Rightarrow> [] | e # u \<Rightarrow> if e = COLON then u else t)
                 then Some (takeWhile (\<lambda>c. c \<noteq> STAR) r)
                 else None
             | _ \<Rightarrow> None)
          else None
      | _ \<Rightarrow> None)"

text \<open>\<^verbatim>\<open>/^[-\<bullet>]\s+(.+)$/\<close>, the bullet being U+2022.\<close>

definition bulletMatch :: "jsstring \<Rightarrow> jsstring option" where
  "bulletMatch line =
     (case line of
        [] \<Rightarrow> None
      | a # r \<Rightarrow> if a = DASH \<or> a = BULLET then re_space_content r else None)"

text \<open>\<^verbatim>\<open>/^\*\s+(.+)$/\<close>\<close>

definition asteriskBulletMatch :: "jsstring \<Rightarrow> jsstring option" where
  "asteriskBulletMatch line =
     (case line of
        [] \<Rightarrow> None
      | a # r \<Rightarrow> if a = STAR then re_space_content r else None)"

text \<open>\<^verbatim>\<open>bulletMatch || asteriskBulletMatch\<close>\<close>

definition matchedBullet :: "jsstring \<Rightarrow> jsstring option" where
  "matchedBullet line =
     (case bulletMatch line of Some c \<Rightarrow> Some c | None \<Rightarrow> asteriskBulletMatch line)"

text \<open>
  \<^verbatim>\<open>/^\d+[.)]\s+(.+)$/\<close>: the greedy \<^verbatim>\<open>\d+\<close> takes the whole run of digits, since a
  dot or a closing parenthesis must follow.
\<close>

definition numberedMatch :: "jsstring \<Rightarrow> jsstring option" where
  "numberedMatch line =
     (if 1 \<le> length (takeWhile is_digit line) then
        (case dropWhile is_digit line of
           [] \<Rightarrow> None
         | p # r \<Rightarrow> if p = DOT \<or> p = RPAREN then re_space_content r else None)
      else None)"

text \<open>\<^verbatim>\<open>/\*+/g\<close>: a run of asterisks.\<close>

definition re_stars :: matcher where
  "re_stars prev s =
     (if 1 \<le> length (takeWhile is_star s) then Some (length (takeWhile is_star s)) else None)"

text \<open>
  \<^verbatim>\<open>/^\*+\s*/\<close>: the leading run of asterisks and the white space behind it; without
  the \<^verbatim>\<open>m\<close> flag \<^verbatim>\<open>^\<close> holds at the start of the text only.
\<close>

definition re_lead_stars :: matcher where
  "re_lead_stars prev s =
     (case prev of
        Some p \<Rightarrow> None
      | None \<Rightarrow>
          if 1 \<le> length (takeWhile is_star s)
          then Some (length (takeWhile is_star s)
                     + length (takeWhile is_space (dropWhile is_star s)))
          else None)"

text \<open>\<^verbatim>\<open>/\*+$/\<close>: asterisks up to the end of the text.\<close>

definition re_trail_stars :: matcher where
  "re_trail_stars prev s =
     (if 1 \<le> length s \<and> list_all is_star s then Some (length s) else None)"

text \<open>\<^verbatim>\<open>/\s*\*+$/\<close>: white space, then asterisks up to the end of the text.\<close>

definition re_space_trail_stars :: matcher where
  "re_space_trail_stars prev s =
     (if 1 \<le> length (dropWhile is_space s) \<and> list_all is_star (dropWhile is_space s)
      then Some (length s) else None)"

subsection \<open>The expressions of \<^verbatim>\<open>formatInlineText\<close>\<close>

text \<open>
  \<^verbatim>\<open>/(?<!\*)\*(?!\*)/g\<close>: an asterisk with no asterisk before it and none behind it.
\<close>

definition re_lone_star :: matcher where
  "re_lone_star prev s =
     (case s of
        [] \<Rightarrow> None
      | c # r \<Rightarrow>
          if c = STAR
             \<and> (case prev of None \<Rightarrow> True | Some p \<Rightarrow> if p = STAR then False else True)
             \<and> (case r of [] \<Rightarrow> True | d # t \<Rightarrow> if d = STAR then False else True)
          then Some 1 else None)"

text \<open>
  \<^verbatim>\<open>/\*\*(.+?)\*\*/g\<close>. Behind the opening pair the lazy group takes one code unit and
  then as few more as possible until two asterisks follow; it never takes a
  LineTerminator. \<open>lazy_close r\<close> is the number of code units the group takes from
  \<open>r\<close> beyond its first one.
\<close>

fun lazy_close :: "jsstring \<Rightarrow> nat option" where
  "lazy_close [] = None"
| "lazy_close (a # r) =
     (if a = STAR \<and> (case r of [] \<Rightarrow> False | b # t \<Rightarrow> b = STAR) then Some 0
      else if is_line_terminator a then None
      else map_option Suc (lazy_close r))"

text \<open>The match at one position: the text of the group and the length of the match.\<close>

definition re_bold :: "jsstring \<Rightarrow> (jsstring \<times> nat) option" where
  "re_bold s =
     (case s of
        a # b # c # r \<Rightarrow>
          if a = STAR \<and> b = STAR \<and> is_dot_char c then
            (case lazy_close r of
               None \<Rightarrow> None
             | Some k \<Rightarrow> Some (c # take k r, k + 5))
          else None
      | _ \<Rightarrow> None)"

text \<open>
  The leftmost match in \<open>s\<close>: how far into \<open>s\<close> it starts, the text of its group and
  its length.
\<close>

fun find_bold :: "jsstring \<Rightarrow> (nat \<times> jsstring \<times> nat) option" where
  "find_bold [] = None"
| "find_bold (c # cs) =
     (case re_bold (c # cs) of
        Some (cap, n) \<Rightarrow> Some (0, cap, n)
      | None \<Rightarrow>
          (case find_bold cs of
             None \<Rightarrow> None
           | Some (i, cap, n) \<Rightarrow> Some (Suc i, cap, n)))"

text \<open>
  \<^verbatim>\<open>boldRegex.exec(cleanedText)\<close> with the expression's \<^verbatim>\<open>lastIndex\<close>: the search
  starts there; the result is \<^verbatim>\<open>match.index\<close>, \<^verbatim>\<open>match[1]\<close> and the new
  \<^verbatim>\<open>lastIndex\<close>, or \<open>None\<close> for \<^verbatim>\<open>null\<close>.
\<close>

definition bold_exec :: "jsstring \<Rightarrow> nat \<Rightarrow> (nat \<times> jsstring \<times> nat) option" where
  "bold_exec text lastIndex =
     (case find_bold (drop lastIndex text) of
        None \<Rightarrow> None
      | Some (i, cap, n) \<Rightarrow> Some (lastIndex + i, cap, lastIndex + i + n))"

text \<open>\<^verbatim>\<open>s.slice(i, j)\<close> for \<open>0 \<le> i \<le> j\<close>.\<close>

definition slice :: "jsstring \<Rightarrow> nat \<Rightarrow> nat \<Rightarrow> jsstring" where
  "slice s i j = take (j - i) (drop i s)"

section \<open>Content nodes\<close>

text \<open>
  The rendered elements, under the names of the specification. \<^verbatim>\<open><strong>\<close> is an
  \<open>Emphasis\<close> span and a string child a \<open>PlainText\<close> span; \<^verbatim>\<open><p>\<close> is a
  \<open>Paragraph\<close>, \<^verbatim>\<open><ul>\<close> a \<open>BulletList\<close> and \<^verbatim>\<open><ol>\<close> a \<open>NumberedList\<close>
  (one span sequence for each \<^verbatim>\<open><li>\<close>); the \<^verbatim>\<open><h3>\<close> emitted for a
  \<^verbatim>\<open>##\<close> line is \<open>Heading 2\<close>, and the \<^verbatim>\<open><h4>\<close> emitted for a \<^verbatim>\<open>###\<close> line
  or for a bold header line is \<open>Heading 3\<close>. Keys and class names are left out.
\<close>

datatype span = PlainText jsstring | Emphasis jsstring

datatype node =
    Paragraph "span list"
  | Heading nat "span list"
  | BulletList "span list list"
  | NumberedList "span list list"

text \<open>
  The component returns \<^verbatim>\<open>null\<close> or a \<^verbatim>\<open><div>\<close> around the elements.
\<close>

datatype render = NoRender | Rendered "node list"

fun span_text :: "span \<Rightarrow> jsstring" where
  "span_text (PlainText t) = t"
| "span_text (Emphasis t) = t"

section \<open>Inline formatting\<close>

text \<open>
  The loop of \<^verbatim>\<open>formatInlineText\<close>,
  \<^verbatim>\<open>while ((match = boldRegex.exec(cleanedText)) !== null) { ... }\<close>,
  with its state \<^verbatim>\<open>lastIndex\<close> and \<^verbatim>\<open>parts\<close>. Nothing in the shape of the loop
  bounds its iterations, so it is a partial function: \<open>None\<close> stands for a loop that
  never ends.
\<close>

partial_function (option) boldLoop ::
  "jsstring \<Rightarrow> nat \<Rightarrow> span list \<Rightarrow> (span list \<times> nat) option" where
  "boldLoop cleanedText lastIndex parts =
     (case bold_exec cleanedText lastIndex of
        None \<Rightarrow> Some (parts, lastIndex)
      | Some (index, cap, newLastIndex) \<Rightarrow>
          boldLoop cleanedText newLastIndex
            ((if lastIndex < index
              then parts @ [PlainText (slice cleanedText lastIndex index)]
              else parts) @ [Emphasis cap]))"

text \<open>
  When \<^verbatim>\<open>parts\<close> is empty the function returns the string \<^verbatim>\<open>cleanedText\<close> itself,
  here a single \<open>PlainText\<close> span.
\<close>

definition formatInlineText :: "jsstring \<Rightarrow> span list option" where
  "formatInlineText text =
     (let cleanedText = replace_g re_lone_star [] None
                          (replace_g re_stars3 [STAR, STAR] None text)
      in case boldLoop cleanedText 0 [] of
           None \<Rightarrow> None
         | Some (parts, lastIndex) \<Rightarrow>
             (let parts' = (if lastIndex < length cleanedText
                            then parts @ [PlainText (drop lastIndex cleanedText)]
                            else parts)
              in Some (if 0 < length parts' then parts' else [PlainText cleanedText])))"

section \<open>The line loop\<close>

datatype list_type = bullet | numbered

text \<open>
  The variables the callback of \<^verbatim>\<open>lines.forEach\<close> and \<^verbatim>\<open>flushList\<close> share. An
  item of \<^verbatim>\<open>listItems\<close> is its \<^verbatim>\<open>text\<close> (\<^verbatim>\<open>subItems\<close> is never set).
\<close>

record fstate =
  elements :: "node list"
  listItems :: "jsstring list"
  isInList :: bool
  listType :: list_type

definition init_state :: fstate where
  "init_state = \<lparr>elements = [], listItems = [], isInList = False, listType = bullet\<rparr>"

definition push :: "node \<Rightarrow> fstate \<Rightarrow> fstate" where
  "push n st = st\<lparr>elements := elements st @ [n]\<rparr>"

definition flushList :: "fstate \<Rightarrow> fstate option" where
  "flushList st =
     (if 0 < length (listItems st) then
        (case those (map formatInlineText (listItems st)) of
           None \<Rightarrow> None
         | Some items \<Rightarrow>
             Some ((push (if listType st = numbered then NumberedList items
                          else BulletList items) st)
                   \<lparr>listItems := [], isInList := False\<rparr>))
      else Some st)"

text \<open>
  \<^verbatim>\<open>matchedBullet[1].replace(/^\*+\s*/, '').replace(/\*+$/, '')\<close>
\<close>

definition bulletText :: "jsstring \<Rightarrow> jsstring" where
  "bulletText c = replace_first re_trail_stars [] None (replace_first re_lead_stars [] None c)"

text \<open>
  \<^verbatim>\<open>trimmedLine.replace(/^\*+\s*/, '').replace(/\s*\*+$/, '')\<close>
\<close>

definition cleanedLine :: "jsstring \<Rightarrow> jsstring" where
  "cleanedLine trimmedLine =
     replace_first re_space_trail_stars [] None (replace_first re_lead_stars [] None trimmedLine)"

text \<open>The callback of \<^verbatim>\<open>lines.forEach\<close>; the index only serves as a key.\<close>

definition processLine :: "fstate \<Rightarrow> jsstring \<Rightarrow> fstate option" where
  "processLine st line =
     (let trimmedLine = trim line in
      if trimmedLine = [] then flushList st
      else case h2Match trimmedLine of
        Some c \<Rightarrow>
          do { st1 \<leftarrow> flushList st; sp \<leftarrow> formatInlineText c; Some (push (Heading 2 sp) st1) }
      | None \<Rightarrow>
      (case h3Match trimmedLine of
        Some c \<Rightarrow>
          do { st1 \<leftarrow> flushList st; sp \<leftarrow> formatInlineText c; Some (push (Heading 3 sp) st1) }
      | None \<Rightarrow>
      (case boldHeaderMatch trimmedLine of
        Some c \<Rightarrow>
          do { st1 \<leftarrow> flushList st;
               Some (push (Heading 3 [PlainText (replace_g re_stars [] None c)]) st1) }
      | None \<Rightarrow>
      (case matchedBullet trimmedLine of
        Some c \<Rightarrow>
          do { st1 \<leftarrow> (if isInList st then Some st
                       else do { st0 \<leftarrow> flushList st;
                                 Some (st0\<lparr>isInList := True, listType := bullet\<rparr>) });
               Some (st1\<lparr>listItems := listItems st1 @ [bulletText c]\<rparr>) }
      | None \<Rightarrow>
      (case numberedMatch trimmedLine of
        Some c \<Rightarrow>
          do { st1 \<leftarrow> (if isInList st then Some st
                       else do { st0 \<leftarrow> flushList st;
                                 Some (st0\<lparr>isInList := True, listType := numbered\<rparr>) });
               Some (st1\<lparr>listItems := listItems st1 @ [c]\<rparr>) }
      | None \<Rightarrow>
          do { st1 \<leftarrow> flushList st;
               if cleanedLine trimmedLine = [] then Some st1
               else do { sp \<leftarrow> formatInlineText (cleanedLine trimmedLine);
                         Some (push (Paragraph sp) st1) } })))))"

fun forEach :: "fstate \<Rightarrow> jsstring list \<Rightarrow> fstate option" where
  "forEach st [] = Some st"
| "forEach st (line # lines) =
     (case processLine st line of
        None \<Rightarrow> None
      | Some st1 \<Rightarrow> forEach st1 lines)"

text \<open>
  The component \<^verbatim>\<open>FormattedContent\<close>, as a function of its \<^verbatim>\<open>content\<close>. The outer
  \<open>option\<close> is \<open>None\<close> when the call does not return.
\<close>

definition FormattedContent :: "jsstring \<Rightarrow> render option" where
  "FormattedContent content =
     (if content = [] then Some NoRender
      else do { st \<leftarrow> forEach init_state (split_nl (cleanContent content));
                st1 \<leftarrow> flushList st;
                Some (Rendered (elements st1)) })"

section \<open>Characterisations used in the statements\<close>

text \<open>
  What the two replacements of a bullet item amount to: the leading run of asterisks,
  with the white space behind it, and the trailing run of asterisks are removed.
\<close>

definition strip_marker_runs :: "jsstring \<Rightarrow> jsstring" where
  "strip_marker_runs c =
     rev (dropWhile is_star (rev
       (case c of
          [] \<Rightarrow> []
        | a # r \<Rightarrow> if a = STAR then dropWhile is_space (dropWhile is_star c) else c)))"

text \<open>
  A line falls through the classifier when it is not blank and none of the five
  expressions of the line loop matches it: it reaches the paragraph case.
\<close>

definition falls_through :: "jsstring \<Rightarrow> bool" where
  "falls_through line =
     (trim line \<noteq> [] \<and> h2Match (trim line) = None \<and> h3Match (trim line) = None
      \<and> boldHeaderMatch (trim line) = None \<and> matchedBullet (trim line) = None
      \<and> numberedMatch (trim line) = None)"

text \<open>The lines for which the paragraph case pushes a paragraph.\<close>

definition paragraph_line :: "jsstring \<Rightarrow> bool" where
  "paragraph_line line = (falls_through line \<and> cleanedLine (trim line) \<noteq> [])"

fun is_paragraph :: "node \<Rightarrow> bool" where
  "is_paragraph (Paragraph sp) = True"
| "is_paragraph (Heading n sp) = False"
| "is_paragraph (BulletList items) = False"
| "is_paragraph (NumberedList items) = False"

text \<open>
  No three white-space code units in a row: what the white-space replacement of the
  pre-cleaning pass establishes. Used in the proofs only.
\<close>

fun ws_runs_short :: "jsstring \<Rightarrow> bool" where
  "ws_runs_short [] = True"
| "ws_runs_short (c # cs) = (length (takeWhile is_space (c # cs)) < 3 \<and> ws_runs_short cs)"

section \<open>Unfolding on concrete inputs\<close>

lemmas char_defs = str_def is_space_def is_star_def is_line_terminator_def is_digit_def
  is_dot_char_def

lemmas re_defs = re_line_star_def re_stars3_def re_star_sep_def re_spaces3_def
  re_stars_colon_def re_colon_stars_def re_space_content_def re_stars_def re_lead_stars_def
  re_trail_stars_def re_space_trail_stars_def re_lone_star_def re_bold_def bold_exec_def
  slice_def

lemmas line_defs = trim_def h2Match_def h3Match_def boldHeaderMatch_def bulletMatch_def
  asteriskBulletMatch_def matchedBullet_def numberedMatch_def bulletText_def cleanedLine_def

lemmas fc_defs = FormattedContent_def cleanContent_def processLine_def flushList_def
  formatInlineText_def boldLoop.simps push_def init_state_def

section \<open>Termination of the inline loop\<close>

lemma lazy_close_bound: "lazy_close r = Some k \<Longrightarrow> k + 2 \<le> length r"
proof (induction r arbitrary: k)
  case Nil
  then show ?case by simp
next
  case (Cons a r)
  show ?case
  proof (cases "a = STAR \<and> (case r of [] \<Rightarrow> False | b # t \<Rightarrow> b = STAR)")
    case True
    with Cons.prems show ?thesis by (cases r) auto
  next
    case False
    with Cons.prems obtain k' where "lazy_close r = Some k'" "k = Suc k'"
      by (auto split: if_splits)
    with Cons.IH show ?thesis by fastforce
  qed
qed

lemma re_bold_bound: "re_bold s = Some (cap, n) \<Longrightarrow> 0 < n \<and> n \<le> length s"
  by (auto simp: re_bold_def split: list.splits if_splits option.splits
      dest: lazy_close_bound)

lemma find_bold_bound: "find_bold s = Some (i, cap, n) \<Longrightarrow> 0 < n \<and> i + n \<le> length s"
proof (induction s arbitrary: i)
  case Nil
  then show ?case by simp
next
  case (Cons c cs)
  show ?case
  proof (cases "re_bold (c # cs)")
    case None
    with Cons.prems obtain j where "find_bold cs = Some (j, cap, n)" "i = Suc j"
      by (auto split: option.splits)
    with Cons.IH show ?thesis by fastforce
  next
    case (Some a)
    with Cons.prems have "re_bold (c # cs) = Some (cap, n)" "i = 0"
      by (auto split: prod.splits)
    then show ?thesis using re_bold_bound by fastforce
  qed
qed

lemma bold_exec_progress:
  assumes "bold_exec t i = Some (idx, cap, j)"
  shows "i < j \<and> j \<le> length t"
proof -
  from assms obtain k n where f: "find_bold (drop i t) = Some (k, cap, n)" and j: "j = i + k + n"
    by (auto simp: bold_exec_def split: option.splits)
  from find_bold_bound [OF f] have "0 < n" "k + n \<le> length t - i" by simp_all
  with j show ?thesis by auto
qed

lemma boldLoop_total: "\<exists>r. boldLoop t i parts = Some r"
proof (induction "length t - i" arbitrary: i parts rule: less_induct)
  case less
  show ?case
  proof (cases "bold_exec t i")
    case None
    then show ?thesis by (subst boldLoop.simps) simp
  next
    case (Some m)
    obtain idx cap j where m: "m = (idx, cap, j)" by (cases m)
    from Some m bold_exec_progress have "i < j" "j \<le> length t" by blast+
    then have "length t - j < length t - i" by arith
    from less [OF this] Some m show ?thesis by (subst boldLoop.simps) simp
  qed
qed

lemma formatInlineText_total: "\<exists>sp. formatInlineText t = Some sp"
proof -
  obtain r where "boldLoop (replace_g re_lone_star [] None (replace_g re_stars3 [STAR, STAR] None t)) 0 [] = Some r"
    using boldLoop_total by blast
  then show ?thesis by (cases r) (simp add: formatInlineText_def Let_def)
qed

lemma those_map_total:
  assumes "\<And>x. \<exists>y. f x = Some y"
  shows "\<exists>ys. those (map f xs) = Some ys"
proof (induction xs)
  case Nil
  then show ?case by simp
next
  case (Cons x xs)
  from assms obtain y where "f x = Some y" by blast
  with Cons show ?case by auto
qed

lemma flushList_total: "\<exists>st'. flushList st = Some st'"
proof -
  obtain items where "those (map formatInlineText (listItems st)) = Some items"
    using those_map_total [of formatInlineText] formatInlineText_total by blast
  then show ?thesis by (simp add: flushList_def)
qed

lemma processLine_total: "\<exists>st'. processLine st line = Some st'"
proof -
  obtain st1 where f: "flushList st = Some st1" using flushList_total by blast
  have sp: "\<And>t. \<exists>sp. formatInlineText t = Some sp" by (rule formatInlineText_total)
  show ?thesis
  proof (cases "trim line = []")
    case True
    with f show ?thesis by (simp add: processLine_def)
  next
    case False
    note ne = this
    show ?thesis
    proof (cases "h2Match (trim line)")
      case (Some c)
      from sp obtain s where "formatInlineText c = Some s" by blast
      with ne Some f show ?thesis by (simp add: processLine_def)
    next
      case None
      note h2 = this
      show ?thesis
      proof (cases "h3Match (trim line)")
        case (Some c)
        from sp obtain s where "formatInlineText c = Some s" by blast
        with ne h2 Some f show ?thesis by (simp add: processLine_def)
      next
        case None
        note h3 = this
        show ?thesis
        proof (cases "boldHeaderMatch (trim line)")
          case (Some c)
          with ne h2 h3 f show ?thesis by (simp add: processLine_def)
        next
          case None
          note bh = this
          show ?thesis
          proof (cases "matchedBullet (trim line)")
            case (Some c)
            with ne h2 h3 bh f show ?thesis by (simp add: processLine_def)
          next
            case None
            note mb = this
            show ?thesis
            proof (cases "numberedMatch (trim line)")
              case (Some c)
              with ne h2 h3 bh mb f show ?thesis by (simp add: processLine_def)
            next
              case None
              from sp obtain s where "formatInlineText (cleanedLine (trim line)) = Some s"
                by blast
              with ne h2 h3 bh mb None f show ?thesis by (simp add: processLine_def Let_def)
            qed
          qed
        qed
      qed
    qed
  qed
qed

lemma forEach_total: "\<exists>st'. forEach st lines = Some st'"
proof (induction lines arbitrary: st)
  case Nil
  then show ?case by simp
next
  case (Cons line lines)
  obtain st1 where "processLine st line = Some st1" using processLine_total by blast
  with Cons show ?case by simp
qed

section \<open>Lines that fall through to the paragraph case\<close>

lemma flushList_paragraphs:
  "flushList st = Some st1 \<Longrightarrow>
     filter is_paragraph (elements st1) = filter is_paragraph (elements st)"
  by (auto simp: flushList_def push_def split: if_splits option.splits)

lemma push_paragraphs:
  "filter is_paragraph (elements (push n st))
     = filter is_paragraph (elements st) @ (if is_paragraph n then [n] else [])"
  by (simp add: push_def)

lemma processLine_not_paragraph_line:
  assumes "\<not> paragraph_line line" and "processLine st line = Some st'"
  shows "filter is_paragraph (elements st') = filter is_paragraph (elements st)"
proof -
  obtain st1 where f: "flushList st = Some st1" using flushList_total by blast
  note p = flushList_paragraphs [OF f]
  show ?thesis
  proof (cases "trim line = []")
    case True
    with assms(2) f p show ?thesis by (simp add: processLine_def)
  next
    case False
    note ne = this
    show ?thesis
    proof (cases "h2Match (trim line)")
      case (Some a)
      with assms(2) ne f p show ?thesis
        by (auto simp: processLine_def push_paragraphs split: bind_splits)
    next
      case None
      note h2 = this
      show ?thesis
      proof (cases "h3Match (trim line)")
        case (Some a)
        with assms(2) ne h2 f p show ?thesis
          by (auto simp: processLine_def push_paragraphs split: bind_splits)
      next
        case None
        note h3 = this
        show ?thesis
        proof (cases "boldHeaderMatch (trim line)")
          case (Some a)
          with assms(2) ne h2 h3 f p show ?thesis
            by (auto simp: processLine_def push_paragraphs)
        next
          case None
          note bh = this
          show ?thesis
          proof (cases "matchedBullet (trim line)")
            case (Some a)
            with assms(2) ne h2 h3 bh f p show ?thesis
              by (auto simp: processLine_def split: if_splits)
          next
            case None
            note mb = this
            show ?thesis
            proof (cases "numberedMatch (trim line)")
              case (Some a)
              with assms(2) ne h2 h3 bh mb f p show ?thesis
                by (auto simp: processLine_def split: if_splits)
            next
              case None
              with assms(1) ne h2 h3 bh mb have "cleanedLine (trim line) = []"
                by (simp add: paragraph_line_def falls_through_def)
              with assms(2) ne h2 h3 bh mb None f p show ?thesis
                by (simp add: processLine_def Let_def)
            qed
          qed
        qed
      qed
    qed
  qed
qed

lemma processLine_falls_through:
  assumes "falls_through line"
  shows "processLine st line =
           flushList st \<bind> (\<lambda>st1.
             if cleanedLine (trim line) = [] then Some st1
             else formatInlineText (cleanedLine (trim line)) \<bind>
                    (\<lambda>sp. Some (push (Paragraph sp) st1)))"
  using assms by (simp add: processLine_def falls_through_def Let_def)

lemma processLine_paragraph_line:
  assumes "paragraph_line line" and "processLine st line = Some st'"
  shows "\<exists>sp. formatInlineText (cleanedLine (trim line)) = Some sp
            \<and> filter is_paragraph (elements st')
                = filter is_paragraph (elements st) @ [Paragraph sp]"
proof -
  obtain st1 where f: "flushList st = Some st1" using flushList_total by blast
  obtain sp where sp: "formatInlineText (cleanedLine (trim line)) = Some sp"
    using formatInlineText_total by blast
  from assms(1) have ft: "falls_through line" and ne: "cleanedLine (trim line) \<noteq> []"
    by (simp_all add: paragraph_line_def)
  from assms(2) f sp ne have "st' = push (Paragraph sp) st1"
    by (simp add: processLine_falls_through [OF ft])
  with flushList_paragraphs [OF f] sp show ?thesis by (simp add: push_paragraphs)
qed

lemma forEach_paragraphs:
  assumes "forEach st lines = Some st'"
  shows "\<exists>sps. list_all2 (\<lambda>l sp. formatInlineText (cleanedLine (trim l)) = Some sp)
                  (filter paragraph_line lines) sps
            \<and> filter is_paragraph (elements st')
                = filter is_paragraph (elements st) @ map Paragraph sps"
  using assms
proof (induction lines arbitrary: st)
  case Nil
  then show ?case by simp
next
  case (Cons line lines)
  from Cons.prems obtain st1
    where a: "processLine st line = Some st1" and b: "forEach st1 lines = Some st'"
    by (auto split: option.splits)
  from Cons.IH [OF b] obtain sps
    where r: "list_all2 (\<lambda>l sp. formatInlineText (cleanedLine (trim l)) = Some sp)
                  (filter paragraph_line lines) sps"
      and e: "filter is_paragraph (elements st')
                = filter is_paragraph (elements st1) @ map Paragraph sps"
    by blast
  show ?case
  proof (cases "paragraph_line line")
    case True
    from processLine_paragraph_line [OF True a] obtain sp
      where sp: "formatInlineText (cleanedLine (trim line)) = Some sp"
        and e1: "filter is_paragraph (elements st1)
                = filter is_paragraph (elements st) @ [Paragraph sp]"
      by blast
    from r sp True
    have "list_all2 (\<lambda>l sp. formatInlineText (cleanedLine (trim l)) = Some sp)
                  (filter paragraph_line (line # lines)) (sp # sps)"
      by simp
    moreover have "filter is_paragraph (elements st')
                = filter is_paragraph (elements st) @ map Paragraph (sp # sps)"
      by (simp add: e e1)
    ultimately show ?thesis by blast
  next
    case False
    from processLine_not_paragraph_line [OF False a] r e False show ?thesis by auto
  qed
qed

text \<open>
  Claim C6, as amended. For every input string the formatter terminates and returns: the
  inline loop ends and no step of the line loop fails. The result is the no-render value
  for the empty string and a (possibly empty) sequence of content nodes for every other
  input. Malformed or ambiguous markup falls through to the paragraph case: the
  paragraphs of the result are, in order, the inline-formatted texts of exactly those
  lines of the cleaned text that are not blank, match none of the heading, bullet and
  numbered expressions and are not empty after their markers are stripped.
\<close>

theorem FormattedContent_returns:
  "\<exists>r. FormattedContent s = Some r
      \<and> (s = [] \<and> r = NoRender
         \<or> s \<noteq> [] \<and> (\<exists>nodes sps. r = Rendered nodes
              \<and> list_all2 (\<lambda>l sp. formatInlineText (cleanedLine (trim l)) = Some sp)
                   (filter paragraph_line (split_nl (cleanContent s))) sps
              \<and> filter is_paragraph nodes = map Paragraph sps))"
proof (cases "s = []")
  case True
  then show ?thesis by (simp add: FormattedContent_def)
next
  case False
  obtain st where a: "forEach init_state (split_nl (cleanContent s)) = Some st"
    using forEach_total by blast
  obtain st1 where b: "flushList st = Some st1" using flushList_total by blast
  from forEach_paragraphs [OF a] obtain sps
    where r: "list_all2 (\<lambda>l sp. formatInlineText (cleanedLine (trim l)) = Some sp)
                  (filter paragraph_line (split_nl (cleanContent s))) sps"
      and e: "filter is_paragraph (elements st) = map Paragraph sps"
    by (auto simp: init_state_def)
  from flushList_paragraphs [OF b] e
  have "filter is_paragraph (elements st1) = map Paragraph sps" by simp
  moreover from a b False have "FormattedContent s = Some (Rendered (elements st1))"
    by (simp add: FormattedContent_def)
  ultimately show ?thesis using False r by blast
qed


text \<open>
  The theorem at an input with a heading marker without its space and an emphasis run
  that is never closed: both lines become paragraphs.
\<close>

theorem FormattedContent_returns_witness:
  "\<exists>nodes. FormattedContent (str ''##Soil'' @ NL # str ''**bold'') = Some (Rendered nodes)
      \<and> filter is_paragraph nodes
          = [Paragraph [PlainText (str ''##Soil'')], Paragraph [PlainText (str ''bold'')]]"
proof -
  let ?s = "str ''##Soil'' @ NL # str ''**bold''"
  have ne: "?s \<noteq> []" by (simp add: str_def)
  have lines: "filter paragraph_line (split_nl (cleanContent ?s)) = [str ''##Soil'', str ''**bold'']"
    by (simp add: char_defs re_defs line_defs cleanContent_def paragraph_line_def
        falls_through_def)
  have c1: "cleanedLine (trim (str ''##Soil'')) = str ''##Soil''"
    and c2: "cleanedLine (trim (str ''**bold'')) = str ''bold''"
    by (simp_all add: char_defs re_defs line_defs)
  have f1: "formatInlineText (str ''##Soil'') = Some [PlainText (str ''##Soil'')]"
    and f2: "formatInlineText (str ''bold'') = Some [PlainText (str ''bold'')]"
    by (simp_all add: char_defs re_defs formatInlineText_def boldLoop.simps)
  from FormattedContent_returns [of ?s] ne obtain nodes sps
    where r: "FormattedContent ?s = Some (Rendered nodes)"
      and l: "list_all2 (\<lambda>l sp. formatInlineText (cleanedLine (trim l)) = Some sp)
                 (filter paragraph_line (split_nl (cleanContent ?s))) sps"
      and e: "filter is_paragraph nodes = map Paragraph sps"
    by auto
  from l have "sps = [[PlainText (str ''##Soil'')], [PlainText (str ''bold'')]]"
    unfolding lines by (auto simp: list_all2_Cons1 c1 c2 f1 f2)
  with r e show ?thesis by simp
qed

text \<open>
  Claim C6 as stated fails at the empty string: the component returns \<^verbatim>\<open>null\<close>, not
  a sequence of nodes.
\<close>

theorem empty_string_is_not_rendered:
  "FormattedContent [] = Some NoRender \<and> FormattedContent [] \<noteq> Some (Rendered [])"
  by (simp add: FormattedContent_def)

section \<open>Replacement where nothing matches\<close>

lemma replace_g_no_match:
  assumes "\<And>p u. set u \<subseteq> set s \<Longrightarrow> m p u = None"
  shows "replace_g m rep p s = s"
  using assms
proof (induction s arbitrary: p)
  case Nil
  then show ?case by simp
next
  case (Cons c cs)
  have "m p (c # cs) = None" by (rule Cons.prems) simp
  moreover have "replace_g m rep (Some c) cs = cs"
    by (rule Cons.IH, rule Cons.prems) auto
  ultimately show ?case by simp
qed

lemma takeWhile_star_free: "STAR \<notin> set u \<Longrightarrow> takeWhile is_star u = []"
  by (cases u) (auto simp: is_star_def)

lemma dropWhile_star_free: "STAR \<notin> set u \<Longrightarrow> dropWhile is_star u = u"
  by (cases u) (auto simp: is_star_def)

lemma re_stars3_star_free: "STAR \<notin> set u \<Longrightarrow> re_stars3 p u = None"
  by (simp add: re_stars3_def takeWhile_star_free)

lemma re_lone_star_star_free: "STAR \<notin> set u \<Longrightarrow> re_lone_star p u = None"
  by (cases u) (auto simp: re_lone_star_def)

lemma re_bold_not_star: "c \<noteq> STAR \<Longrightarrow> re_bold (c # cs) = None"
  by (simp add: re_bold_def split: list.split)

lemma find_bold_star_free: "STAR \<notin> set u \<Longrightarrow> find_bold u = None"
  by (induction u) (simp_all add: re_bold_not_star)

lemma formatInlineText_star_free:
  assumes "STAR \<notin> set y"
  shows "formatInlineText y = Some [PlainText y]"
proof -
  have a: "replace_g re_stars3 [STAR, STAR] None y = y"
    using assms by (intro replace_g_no_match re_stars3_star_free) auto
  have b: "replace_g re_lone_star [] None y = y"
    using assms by (intro replace_g_no_match re_lone_star_star_free) auto
  have "find_bold y = None" using assms by (rule find_bold_star_free)
  then have "bold_exec y 0 = None" by (simp add: bold_exec_def)
  then have "boldLoop y 0 [] = Some ([], 0)" by (subst boldLoop.simps) simp
  with a b show ?thesis by (cases y) (simp_all add: formatInlineText_def)
qed

section \<open>The two replacements of a bullet item\<close>

lemma replace_first_lead_later: "replace_first re_lead_stars rep (Some p) s = s"
  by (induction s arbitrary: p) (simp_all add: re_lead_stars_def)

lemma drop_two_runs:
  "drop (length (takeWhile P s) + length (takeWhile Q (dropWhile P s))) s
     = dropWhile Q (dropWhile P s)"
proof -
  have "drop (length (takeWhile P s) + length (takeWhile Q (dropWhile P s))) s
        = drop (length (takeWhile Q (dropWhile P s))) (drop (length (takeWhile P s)) s)"
    by (simp add: add.commute)
  then show ?thesis by (simp add: dropWhile_eq_drop [symmetric])
qed

lemma replace_first_lead:
  "replace_first re_lead_stars [] None c =
     (case c of [] \<Rightarrow> [] | a # r \<Rightarrow>
        if a = STAR then dropWhile is_space (dropWhile is_star c) else c)"
proof (cases c)
  case Nil
  then show ?thesis by (simp add: re_lead_stars_def)
next
  case (Cons a r)
  define n where
    "n = length (takeWhile is_star c) + length (takeWhile is_space (dropWhile is_star c))"
  show ?thesis
  proof (cases "a = STAR")
    case True
    with Cons have "1 \<le> length (takeWhile is_star c)" by (simp add: is_star_def)
    then have "re_lead_stars None (a # r) = Some n"
      unfolding Cons [symmetric] n_def by (simp add: re_lead_stars_def)
    then have "replace_first re_lead_stars [] None (a # r) = drop n (a # r)"
      by (simp only: replace_first.simps option.case append_Nil)
    then have "replace_first re_lead_stars [] None c = dropWhile is_space (dropWhile is_star c)"
      unfolding Cons [symmetric] n_def by (simp only: drop_two_runs)
    with True show ?thesis unfolding Cons by (simp only: list.case refl if_True)
  next
    case False
    then have "re_lead_stars None (a # r) = None"
      by (simp add: re_lead_stars_def is_star_def)
    with False Cons show ?thesis by (simp add: replace_first_lead_later)
  qed
qed

lemma replace_first_trail: "replace_first re_trail_stars [] p s = rev (dropWhile is_star (rev s))"
proof (induction s arbitrary: p)
  case Nil
  then show ?case by (simp add: re_trail_stars_def)
next
  case (Cons c cs)
  show ?case
  proof (cases "list_all is_star (c # cs)")
    case True
    then have "dropWhile is_star (rev (c # cs)) = []"
      by (simp add: list_all_iff)
    moreover from True have "re_trail_stars p (c # cs) = Some (length (c # cs))"
      by (simp add: re_trail_stars_def)
    ultimately show ?thesis by simp
  next
    case False
    then have m: "re_trail_stars p (c # cs) = None" by (simp add: re_trail_stars_def)
    have "dropWhile is_star (rev cs @ [c]) = dropWhile is_star (rev cs) @ [c]"
    proof (cases "list_all is_star cs")
      case True
      with False have "\<not> is_star c" by simp
      with True show ?thesis by (simp add: dropWhile_append list_all_iff)
    next
      case False
      then show ?thesis by (auto simp: dropWhile_append list_all_iff)
    qed
    with m Cons.IH show ?thesis by simp
  qed
qed

lemma bulletText_strip: "bulletText c = strip_marker_runs c"
  by (simp only: bulletText_def strip_marker_runs_def replace_first_lead replace_first_trail)

lemma strip_wrapped:
  assumes "STAR \<notin> set x"
  shows "strip_marker_runs (STAR # STAR # x @ [STAR, STAR]) = dropWhile is_space x"
proof (cases x)
  case Nil
  then show ?thesis by (simp add: strip_marker_runs_def is_star_def)
next
  case (Cons x1 xs)
  have ns: "\<not> is_space STAR" by (simp add: is_space_def)
  from assms Cons have "x1 \<noteq> STAR" by auto
  with Cons have a: "dropWhile is_star (STAR # STAR # x @ [STAR, STAR]) = x @ [STAR, STAR]"
    by (simp add: is_star_def)
  have b: "dropWhile is_space (x @ [STAR, STAR]) = dropWhile is_space x @ [STAR, STAR]"
    using ns by (simp add: dropWhile_append)
  have "set (dropWhile is_space x) \<subseteq> set x" by (auto dest: set_dropWhileD)
  with assms have "STAR \<notin> set (rev (dropWhile is_space x))" by auto
  then have c: "dropWhile is_star (rev (dropWhile is_space x)) = rev (dropWhile is_space x)"
    by (rule dropWhile_star_free)
  have "strip_marker_runs (STAR # STAR # x @ [STAR, STAR])
        = rev (dropWhile is_star (rev (dropWhile is_space x @ [STAR, STAR])))"
    unfolding strip_marker_runs_def by (simp only: list.case a b refl if_True)
  also have "\<dots> = rev (dropWhile is_star (rev (dropWhile is_space x)))"
    by (simp add: is_star_def)
  finally show ?thesis by (simp add: c)
qed

section \<open>Bullet lines\<close>

lemma re_space_content_Some: "re_space_content r = Some c \<Longrightarrow> \<exists>w t. r = w # t \<and> is_space w"
  by (cases r) (auto simp: re_space_content_def split: list.splits if_splits)

lemma matchedBullet_shape:
  assumes "matchedBullet t = Some c"
  shows "\<exists>a w r. t = a # w # r \<and> (a = DASH \<or> a = BULLET \<or> a = STAR) \<and> is_space w"
proof -
  from assms have "bulletMatch t = Some c \<or> asteriskBulletMatch t = Some c"
    by (auto simp: matchedBullet_def split: option.splits)
  then show ?thesis
    by (cases t)
       (auto simp: bulletMatch_def asteriskBulletMatch_def split: if_splits
             dest!: re_space_content_Some)
qed

lemma bullet_not_header:
  assumes "matchedBullet t = Some c"
  shows "t \<noteq> [] \<and> h2Match t = None \<and> h3Match t = None \<and> boldHeaderMatch t = None"
proof -
  from matchedBullet_shape [OF assms] obtain a w r
    where t: "t = a # w # r" and a: "a = DASH \<or> a = BULLET \<or> a = STAR" and w: "is_space w"
    by blast
  from w have "w \<noteq> STAR" by (auto simp: is_space_def)
  with t a show ?thesis
    by (auto simp: h2Match_def h3Match_def boldHeaderMatch_def split: list.splits)
qed

lemma flushList_items: "flushList st = Some st' \<Longrightarrow> listItems st' = []"
  by (auto simp: flushList_def push_def split: if_splits option.splits)


lemma processLine_bullet:
  assumes "matchedBullet (trim line) = Some c"
  shows "processLine st line =
           (if isInList st then Some st
            else flushList st \<bind> (\<lambda>st0. Some (st0\<lparr>isInList := True, listType := bullet\<rparr>)))
           \<bind> (\<lambda>st1. Some (st1\<lparr>listItems := listItems st1 @ [bulletText c]\<rparr>))"
  using assms bullet_not_header [OF assms] by (simp add: processLine_def)

text \<open>
  Claim C10. For every line that the classifier takes as a bullet line with content
  \<open>c\<close>, the item stored for it is \<open>c\<close> without its leading run of asterisks (and the
  white space behind that run) and without its trailing run of asterisks; this happens
  before the item is parsed into spans. Consequently a bullet line whose content is
  \<open>**x**\<close>, with no asterisk in \<open>x\<close>, renders as a bullet list with one plain item
  and no \<open>Emphasis\<close> span.
\<close>

theorem bullet_item_markers_stripped:
  "matchedBullet (trim line) = Some c \<Longrightarrow>
     (\<exists>st'. processLine st line = Some st'
        \<and> listItems st' = (if isInList st then listItems st else []) @ [strip_marker_runs c])
     \<and> (\<forall>x. STAR \<notin> set x \<and> c = STAR # STAR # x @ [STAR, STAR] \<longrightarrow>
           map_option elements (processLine init_state line \<bind> flushList)
             = Some [BulletList [[PlainText (dropWhile is_space x)]]])"
proof -
  assume mb: "matchedBullet (trim line) = Some c"
  have first: "\<exists>st'. processLine st line = Some st'
        \<and> listItems st' = (if isInList st then listItems st else []) @ [strip_marker_runs c]"
  proof (cases "isInList st")
    case True
    then show ?thesis by (simp add: processLine_bullet [OF mb] bulletText_strip)
  next
    case False
    obtain st0 where f: "flushList st = Some st0" using flushList_total by blast
    then have "listItems st0 = []" by (rule flushList_items)
    with False f show ?thesis by (simp add: processLine_bullet [OF mb] bulletText_strip)
  qed
  have second: "map_option elements (processLine init_state line \<bind> flushList)
             = Some [BulletList [[PlainText (dropWhile is_space x)]]]"
    if x: "STAR \<notin> set x" and c: "c = STAR # STAR # x @ [STAR, STAR]" for x
  proof -
    have "set (dropWhile is_space x) \<subseteq> set x" by (auto dest: set_dropWhileD)
    with x have "STAR \<notin> set (dropWhile is_space x)" by auto
    then have "formatInlineText (dropWhile is_space x) = Some [PlainText (dropWhile is_space x)]"
      by (rule formatInlineText_star_free)
    moreover have "bulletText c = dropWhile is_space x"
      unfolding c bulletText_strip using x by (rule strip_wrapped)
    ultimately show ?thesis
      by (simp add: processLine_bullet [OF mb] init_state_def flushList_def push_def)
  qed
  from first second show ?thesis by blast
qed

theorem bullet_item_markers_stripped_witness:
  "matchedBullet (trim (str ''- **item**'')) = Some (str ''**item**'')
   \<and> (\<exists>st'. processLine init_state (str ''- **item**'') = Some st'
          \<and> listItems st' = [str ''item''])
   \<and> map_option elements (processLine init_state (str ''- **item**'') \<bind> flushList)
         = Some [BulletList [[PlainText (str ''item'')]]]"
proof -
  have h: "matchedBullet (trim (str ''- **item**'')) = Some (str ''**item**'')"
    by (simp add: char_defs re_defs line_defs)
  have s: "strip_marker_runs (str ''**item**'') = str ''item''"
    by (simp add: char_defs strip_marker_runs_def)
  have i: "isInList init_state = False" by (simp add: init_state_def)
  have x: "STAR \<notin> set (str ''item'') \<and> str ''**item**'' = STAR # STAR # str ''item'' @ [STAR, STAR]"
    by (simp add: char_defs)
  have d: "dropWhile is_space (str ''item'') = str ''item''" by (simp add: char_defs)
  note t = bullet_item_markers_stripped [OF h, of init_state]
  from t have "\<exists>st'. processLine init_state (str ''- **item**'') = Some st'
          \<and> listItems st' = [str ''item'']"
    by (simp only: s i if_False append_Nil)
  moreover from t x have "map_option elements (processLine init_state (str ''- **item**'') \<bind> flushList)
         = Some [BulletList [[PlainText (dropWhile is_space (str ''item''))]]]"
    by blast
  ultimately show ?thesis using h by (simp only: d simp_thms)
qed

section \<open>Cleaning a text without asterisks\<close>

lemma set_replace_g: "set (replace_g m rep p s) \<subseteq> set s \<union> set rep"
proof (induction m rep p s rule: replace_g.induct)
  case (1 m rep prev)
  then show ?case by (auto split: option.split)
next
  case (2 m rep prev c cs)
  show ?case
  proof (cases "m prev (c # cs)")
    case None
    with 2 show ?thesis by auto
  next
    case (Some n)
    show ?thesis
    proof (cases "n = 0")
      case True
      with Some 2 show ?thesis by auto
    next
      case False
      with Some 2 have "set (replace_g m rep (Some (last (take n (c # cs)))) (drop n (c # cs)))
          \<subseteq> set (drop n (c # cs)) \<union> set rep" by blast
      moreover have "set (drop n (c # cs)) \<subseteq> set (c # cs)" by (rule set_drop_subset)
      ultimately show ?thesis using Some False by auto
    qed
  qed
qed

lemma re_line_star_star_free: "STAR \<notin> set u \<Longrightarrow> re_line_star p u = None"
  by (cases u) (auto simp: re_line_star_def)

lemma re_star_sep_star_free: "STAR \<notin> set u \<Longrightarrow> re_star_sep p u = None"
  by (cases u) (auto simp: re_star_sep_def)

lemma re_stars_colon_star_free: "STAR \<notin> set u \<Longrightarrow> re_stars_colon p u = None"
  by (simp add: re_stars_colon_def takeWhile_star_free)

lemma re_colon_stars_star_free: "STAR \<notin> set u \<Longrightarrow> re_colon_stars p u = None"
  by (cases u) (auto simp: re_colon_stars_def takeWhile_star_free)

lemma cleanContent_star_free:
  assumes "STAR \<notin> set s"
  shows "cleanContent s = replace_g re_spaces3 [SPACE, SPACE] None s"
proof -
  let ?l = "replace_g re_spaces3 [SPACE, SPACE] None s"
  have a: "replace_g re_line_star [BULLET, SPACE] None s = s"
    using assms by (intro replace_g_no_match re_line_star_star_free) auto
  have b: "replace_g re_stars3 [] None s = s"
    using assms by (intro replace_g_no_match re_stars3_star_free) auto
  have c: "replace_g re_star_sep [] None s = s"
    using assms by (intro replace_g_no_match re_star_sep_star_free) auto
  have "set ?l \<subseteq> set s \<union> set [SPACE, SPACE]" by (rule set_replace_g)
  with assms have l: "STAR \<notin> set ?l" by auto
  have d: "replace_g re_stars_colon [COLON] None ?l = ?l"
    using l by (intro replace_g_no_match re_stars_colon_star_free) auto
  have e: "replace_g re_colon_stars [COLON] None ?l = ?l"
    using l by (intro replace_g_no_match re_colon_stars_star_free) auto
  show ?thesis by (simp only: cleanContent_def a b c d e)
qed

section \<open>Collapsing white space\<close>

lemma takeWhile_dropWhile_Nil: "takeWhile P (dropWhile P xs) = []"
  by (induction xs) auto

lemma replace_g_match:
  assumes "m p (c # cs) = Some n" and "n \<noteq> 0"
  shows "replace_g m rep p (c # cs)
           = rep @ replace_g m rep (Some (last (take n (c # cs)))) (drop n (c # cs))"
  using assms by (simp only: replace_g.simps option.case if_False)

lemma collapse_long_run:
  assumes "3 \<le> length (takeWhile is_space s)"
  shows "\<exists>q. replace_g re_spaces3 [SPACE, SPACE] p s
               = SPACE # SPACE # replace_g re_spaces3 [SPACE, SPACE] q (dropWhile is_space s)
             \<and> length (dropWhile is_space s) < length s"
proof (cases s)
  case Nil
  with assms show ?thesis by simp
next
  case (Cons c cs)
  define n where "n = length (takeWhile is_space (c # cs))"
  from assms have n: "3 \<le> n" unfolding Cons n_def .
  have "re_spaces3 p (c # cs) = Some n"
    unfolding re_spaces3_def n_def [symmetric] using n by simp
  moreover have "n \<noteq> 0" using n by simp
  ultimately have m: "re_spaces3 p (c # cs) = Some n" "n \<noteq> 0" .
  have d: "drop n (c # cs) = dropWhile is_space (c # cs)"
    unfolding n_def by (rule dropWhile_eq_drop [symmetric])
  have "replace_g re_spaces3 [SPACE, SPACE] p (c # cs)
          = [SPACE, SPACE] @ replace_g re_spaces3 [SPACE, SPACE]
                               (Some (last (take n (c # cs)))) (drop n (c # cs))"
    using m by (rule replace_g_match)
  then have "replace_g re_spaces3 [SPACE, SPACE] p (c # cs)
          = SPACE # SPACE # replace_g re_spaces3 [SPACE, SPACE]
                               (Some (last (take n (c # cs)))) (dropWhile is_space (c # cs))"
    by (simp only: d append_Cons append_Nil)
  moreover have "length (drop n (c # cs)) < length (c # cs)"
    using n by simp
  then have "length (dropWhile is_space (c # cs)) < length (c # cs)"
    by (simp only: d)
  ultimately show ?thesis unfolding Cons by blast
qed

lemma collapse_short_run:
  assumes "\<not> 3 \<le> length (takeWhile is_space (c # cs))"
  shows "replace_g re_spaces3 rep p (c # cs) = c # replace_g re_spaces3 rep (Some c) cs"
proof -
  from assms have "re_spaces3 p (c # cs) = None" by (simp add: re_spaces3_def)
  then show ?thesis by simp
qed

lemma collapse_prefix_run:
  "length (takeWhile is_space (replace_g re_spaces3 [SPACE, SPACE] p s))
     = (if 3 \<le> length (takeWhile is_space s) then 2 else length (takeWhile is_space s))"
proof (induction "length s" arbitrary: s p rule: less_induct)
  case less
  have sp: "is_space SPACE" by (simp add: is_space_def)
  show ?case
  proof (cases "3 \<le> length (takeWhile is_space s)")
    case True
    from collapse_long_run [OF True, of p] obtain q
      where eq: "replace_g re_spaces3 [SPACE, SPACE] p s
               = SPACE # SPACE # replace_g re_spaces3 [SPACE, SPACE] q (dropWhile is_space s)"
        and lt: "length (dropWhile is_space s) < length s"
      by blast
    have "length (takeWhile is_space
               (replace_g re_spaces3 [SPACE, SPACE] q (dropWhile is_space s))) = 0"
      by (simp add: less [OF lt] takeWhile_dropWhile_Nil)
    then have "takeWhile is_space
               (replace_g re_spaces3 [SPACE, SPACE] q (dropWhile is_space s)) = []"
      by simp
    with sp True show ?thesis unfolding eq by simp
  next
    case False
    show ?thesis
    proof (cases s)
      case Nil
      then show ?thesis by (simp add: re_spaces3_def)
    next
      case (Cons c cs)
      from False have short: "\<not> 3 \<le> length (takeWhile is_space (c # cs))"
        unfolding Cons .
      have "length cs < length s" using Cons by simp
      note ih = less [OF this, of "Some c"]
      show ?thesis
      proof (cases "is_space c")
        case True
        with short have "length (takeWhile is_space cs) < 2" by simp
        with ih True show ?thesis
          unfolding Cons collapse_short_run [OF short] by simp
      next
        case False
        then show ?thesis unfolding Cons collapse_short_run [OF short] by simp
      qed
    qed
  qed
qed

lemma collapse_runs_short: "ws_runs_short (replace_g re_spaces3 [SPACE, SPACE] p s)"
proof (induction "length s" arbitrary: s p rule: less_induct)
  case less
  have whole: "length (takeWhile is_space (replace_g re_spaces3 [SPACE, SPACE] p s)) < 3"
    by (simp add: collapse_prefix_run)
  show ?case
  proof (cases "3 \<le> length (takeWhile is_space s)")
    case True
    from collapse_long_run [OF True, of p] obtain q
      where eq: "replace_g re_spaces3 [SPACE, SPACE] p s
               = SPACE # SPACE # replace_g re_spaces3 [SPACE, SPACE] q (dropWhile is_space s)"
        and lt: "length (dropWhile is_space s) < length s"
      by blast
    have r: "ws_runs_short (replace_g re_spaces3 [SPACE, SPACE] q (dropWhile is_space s))"
      by (rule less [OF lt])
    have "length (takeWhile is_space
               (replace_g re_spaces3 [SPACE, SPACE] q (dropWhile is_space s))) = 0"
      by (simp add: collapse_prefix_run takeWhile_dropWhile_Nil)
    then have z: "takeWhile is_space
               (replace_g re_spaces3 [SPACE, SPACE] q (dropWhile is_space s)) = []"
      by simp
    show ?thesis unfolding eq using r z by simp
  next
    case False
    show ?thesis
    proof (cases s)
      case Nil
      then show ?thesis by (simp add: re_spaces3_def)
    next
      case (Cons c cs)
      from False have short: "\<not> 3 \<le> length (takeWhile is_space (c # cs))"
        unfolding Cons .
      have "length cs < length s" using Cons by simp
      from less [OF this]
      have "ws_runs_short (replace_g re_spaces3 [SPACE, SPACE] (Some c) cs)" .
      with whole show ?thesis unfolding Cons collapse_short_run [OF short] by simp
    qed
  qed
qed

lemma collapse_fixed: "ws_runs_short l \<Longrightarrow> replace_g re_spaces3 rep p l = l"
proof (induction l arbitrary: p)
  case Nil
  then show ?case by (simp add: re_spaces3_def)
next
  case (Cons c cs)
  then have "re_spaces3 p (c # cs) = None" by (simp add: re_spaces3_def)
  with Cons show ?case by simp
qed


lemma filter_not_dropWhile:
  "filter (\<lambda>c. \<not> P c) (dropWhile P xs) = filter (\<lambda>c. \<not> P c) xs"
  by (induction xs) auto

lemma collapse_keeps_text:
  "filter (\<lambda>c. \<not> is_space c) (replace_g re_spaces3 [SPACE, SPACE] p s)
     = filter (\<lambda>c. \<not> is_space c) s"
proof (induction "length s" arbitrary: s p rule: less_induct)
  case less
  have sp: "is_space SPACE" by (simp add: is_space_def)
  show ?case
  proof (cases "3 \<le> length (takeWhile is_space s)")
    case True
    from collapse_long_run [OF True, of p] obtain q
      where eq: "replace_g re_spaces3 [SPACE, SPACE] p s
               = SPACE # SPACE # replace_g re_spaces3 [SPACE, SPACE] q (dropWhile is_space s)"
        and lt: "length (dropWhile is_space s) < length s"
      by blast
    have "filter (\<lambda>c. \<not> is_space c) (replace_g re_spaces3 [SPACE, SPACE] p s)
        = filter (\<lambda>c. \<not> is_space c)
            (replace_g re_spaces3 [SPACE, SPACE] q (dropWhile is_space s))"
      unfolding eq using sp by simp
    also have "\<dots> = filter (\<lambda>c. \<not> is_space c) (dropWhile is_space s)"
      by (rule less [OF lt])
    also have "\<dots> = filter (\<lambda>c. \<not> is_space c) s"
      by (rule filter_not_dropWhile)
    finally show ?thesis .
  next
    case False
    show ?thesis
    proof (cases s)
      case Nil
      then show ?thesis by (simp add: re_spaces3_def)
    next
      case (Cons c cs)
      from False have short: "\<not> 3 \<le> length (takeWhile is_space (c # cs))"
        unfolding Cons .
      have "length cs < length s" using Cons by simp
      from less [OF this, of "Some c"] show ?thesis
        unfolding Cons collapse_short_run [OF short] by simp
    qed
  qed
qed

section \<open>Trimming\<close>

lemma trim_blank_iff: "trim l = [] \<longleftrightarrow> filter (\<lambda>c. \<not> is_space c) l = []"
proof -
  have "trim l = [] \<longleftrightarrow> (\<forall>x \<in> set (dropWhile is_space l). is_space x)"
    by (simp add: trim_def)
  also have "\<dots> \<longleftrightarrow> (\<forall>x \<in> set l. is_space x)"
  proof
    assume a: "\<forall>x \<in> set (dropWhile is_space l). is_space x"
    have "set l = set (takeWhile is_space l) \<union> set (dropWhile is_space l)"
      by (metis set_append takeWhile_dropWhile_id)
    with a show "\<forall>x \<in> set l. is_space x" by (auto dest: set_takeWhileD)
  next
    assume "\<forall>x \<in> set l. is_space x"
    then show "\<forall>x \<in> set (dropWhile is_space l). is_space x" by (auto dest: set_dropWhileD)
  qed
  finally show ?thesis by (simp add: filter_empty_conv)
qed

lemma set_trim: "set (trim l) \<subseteq> set l"
  by (auto simp: trim_def dest!: set_dropWhileD)

lemma trim_split: "\<exists>w. dropWhile is_space l = trim l @ w"
proof -
  let ?a = "dropWhile is_space l"
  have "rev (rev ?a) = rev (takeWhile is_space (rev ?a) @ dropWhile is_space (rev ?a))"
    by (simp only: takeWhile_dropWhile_id)
  then have "?a = rev (dropWhile is_space (rev ?a)) @ rev (takeWhile is_space (rev ?a))"
    by (simp only: rev_rev_ident rev_append)
  then have "?a = trim l @ rev (takeWhile is_space (rev ?a))"
    by (simp only: trim_def)
  then show ?thesis by blast
qed

lemma trim_Nil: "trim [] = []"
  by (simp add: trim_def)

lemma trim_idem: "trim (trim l) = trim l"
proof (cases "trim l = []")
  case True
  then show ?thesis by (simp only: trim_Nil)
next
  case False
  from trim_split obtain w where w: "dropWhile is_space l = trim l @ w" by blast
  with False have "dropWhile is_space l \<noteq> []" by auto
  then have "\<not> is_space (hd (dropWhile is_space l))" by (rule hd_dropWhile)
  with w False have "\<not> is_space (hd (trim l))" by simp
  then have d: "dropWhile is_space (trim l) = trim l"
    by (simp only: dropWhile_eq_self_iff simp_thms)
  have "rev (trim l) = dropWhile is_space (rev (dropWhile is_space l))"
    by (simp only: trim_def rev_rev_ident)
  then have "dropWhile is_space (rev (trim l)) = rev (trim l)"
    by (simp only: dropWhile_idem)
  then have "rev (dropWhile is_space (rev (dropWhile is_space (trim l)))) = trim l"
    by (simp only: d rev_rev_ident)
  then show ?thesis by (simp only: trim_def [of "trim l"])
qed

lemma takeWhile_prefix_le: "length (takeWhile P u) \<le> length (takeWhile P (u @ w))"
  by (induction u) auto

lemma ws_runs_short_prefix: "ws_runs_short (u @ w) \<Longrightarrow> ws_runs_short u"
proof (induction u)
  case Nil
  then show ?case by simp
next
  case (Cons c u)
  have "length (takeWhile is_space (c # u)) \<le> length (takeWhile is_space ((c # u) @ w))"
    by (rule takeWhile_prefix_le)
  with Cons show ?case by simp
qed

lemma ws_runs_short_dropWhile: "ws_runs_short l \<Longrightarrow> ws_runs_short (dropWhile P l)"
  by (induction l) auto

lemma ws_runs_short_trim:
  assumes "ws_runs_short l"
  shows "ws_runs_short (trim l)"
proof -
  from trim_split obtain w where w: "dropWhile is_space l = trim l @ w" by blast
  from assms have "ws_runs_short (dropWhile is_space l)" by (rule ws_runs_short_dropWhile)
  then show ?thesis unfolding w by (rule ws_runs_short_prefix)
qed

section \<open>A single plain line\<close>

lemma split_nl_single: "NL \<notin> set l \<Longrightarrow> split_nl l = [l]"
  by (induction l) auto

lemma boldHeaderMatch_star_free: "STAR \<notin> set t \<Longrightarrow> boldHeaderMatch t = None"
proof (cases t)
  case Nil
  then show ?thesis by (simp add: boldHeaderMatch_def)
next
  case (Cons a r)
  assume "STAR \<notin> set t"
  with Cons have "a \<noteq> STAR" by auto
  with Cons show ?thesis by (cases r) (simp_all add: boldHeaderMatch_def)
qed

lemma replace_first_no_match:
  assumes "\<And>p u. set u \<subseteq> set s \<Longrightarrow> m p u = None"
  shows "replace_first m rep p s = s"
  using assms
proof (induction s arbitrary: p)
  case Nil
  then show ?case by simp
next
  case (Cons c cs)
  have "m p (c # cs) = None" by (rule Cons.prems) simp
  moreover have "replace_first m rep (Some c) cs = cs"
    by (rule Cons.IH, rule Cons.prems) auto
  ultimately show ?case by simp
qed

lemma re_space_trail_stars_star_free:
  assumes "STAR \<notin> set u"
  shows "re_space_trail_stars p u = None"
proof (cases "dropWhile is_space u")
  case Nil
  then show ?thesis by (simp add: re_space_trail_stars_def del: dropWhile_eq_Nil_conv)
next
  case (Cons a r)
  then have "a \<in> set u" by (metis list.set_intros(1) set_dropWhileD)
  with assms have "\<not> is_star a" by (auto simp: is_star_def)
  with Cons show ?thesis by (simp add: re_space_trail_stars_def)
qed

lemma cleanedLine_star_free:
  assumes "STAR \<notin> set t"
  shows "cleanedLine t = t"
proof -
  have "(case t of [] \<Rightarrow> [] | a # r \<Rightarrow>
          if a = STAR then dropWhile is_space (dropWhile is_star t) else t) = t"
    using assms by (cases t) auto
  then have "replace_first re_lead_stars [] None t = t"
    by (simp only: replace_first_lead)
  moreover have "replace_first re_space_trail_stars [] None t = t"
    using assms by (intro replace_first_no_match re_space_trail_stars_star_free) auto
  ultimately show ?thesis by (simp add: cleanedLine_def)
qed

lemma flushList_init: "flushList init_state = Some init_state"
  by (simp add: flushList_def init_state_def)

lemma plain_line_paragraph:
  assumes "STAR \<notin> set l" and "trim l \<noteq> []"
    and "h2Match (trim l) = None" and "h3Match (trim l) = None"
    and "matchedBullet (trim l) = None" and "numberedMatch (trim l) = None"
  shows "processLine init_state l = Some (push (Paragraph [PlainText (trim l)]) init_state)"
proof -
  from assms(1) set_trim have t: "STAR \<notin> set (trim l)" by blast
  have "boldHeaderMatch (trim l) = None" using t by (rule boldHeaderMatch_star_free)
  moreover have "cleanedLine (trim l) = trim l" using t by (rule cleanedLine_star_free)
  moreover have "formatInlineText (trim l) = Some [PlainText (trim l)]"
    using t by (rule formatInlineText_star_free)
  ultimately show ?thesis
    using assms(2-) by (simp add: processLine_def flushList_init)
qed

lemma single_plain_line:
  assumes "STAR \<notin> set s" and "NL \<notin> set s" and "trim s \<noteq> []"
    and "h2Match (trim (cleanContent s)) = None" and "h3Match (trim (cleanContent s)) = None"
    and "matchedBullet (trim (cleanContent s)) = None"
    and "numberedMatch (trim (cleanContent s)) = None"
  shows "FormattedContent s = Some (Rendered [Paragraph [PlainText (trim (cleanContent s))]])"
proof -
  let ?l = "replace_g re_spaces3 [SPACE, SPACE] None s"
  have l: "cleanContent s = ?l" using assms(1) by (rule cleanContent_star_free)
  have sub: "set ?l \<subseteq> set s \<union> set [SPACE, SPACE]" by (rule set_replace_g)
  with assms(1) have star: "STAR \<notin> set ?l" by auto
  from sub assms(2) have "NL \<notin> set ?l" by auto
  then have lines: "split_nl ?l = [?l]" by (rule split_nl_single)
  from assms(3) have ne: "s \<noteq> []" by (auto simp: trim_def)
  from assms(3) have "trim ?l \<noteq> []"
    by (simp add: trim_blank_iff collapse_keeps_text)
  with star assms(4-) 
  have "processLine init_state ?l = Some (push (Paragraph [PlainText (trim ?l)]) init_state)"
    unfolding l by (intro plain_line_paragraph)
  then show ?thesis
    using ne
    by (simp add: FormattedContent_def l lines flushList_def push_def init_state_def)
qed

text \<open>
  Claim C9, as amended. Let \<open>s\<close> be a single line without emphasis markers that is not
  blank and that the classifier, after cleaning and trimming, takes neither as a heading
  nor as a bullet or numbered line. Then the formatter returns a single paragraph, and
  formatting the concatenated text of its spans returns the same single paragraph.
\<close>

theorem plain_text_fixed_point:
  assumes "STAR \<notin> set s" and "NL \<notin> set s" and "trim s \<noteq> []"
    and "h2Match (trim (cleanContent s)) = None" and "h3Match (trim (cleanContent s)) = None"
    and "matchedBullet (trim (cleanContent s)) = None"
    and "numberedMatch (trim (cleanContent s)) = None"
  shows "\<exists>sp. FormattedContent s = Some (Rendered [Paragraph sp])
            \<and> FormattedContent (concat (map span_text sp)) = Some (Rendered [Paragraph sp])"
proof -
  let ?l = "replace_g re_spaces3 [SPACE, SPACE] None s"
  let ?t = "trim (cleanContent s)"
  have first: "FormattedContent s = Some (Rendered [Paragraph [PlainText ?t]])"
    using assms by (rule single_plain_line)
  have l: "cleanContent s = ?l" using assms(1) by (rule cleanContent_star_free)
  have "set ?t \<subseteq> set ?l" unfolding l by (rule set_trim)
  moreover have "set ?l \<subseteq> set s \<union> set [SPACE, SPACE]" by (rule set_replace_g)
  ultimately have star: "STAR \<notin> set ?t" and nl: "NL \<notin> set ?t"
    using assms(1,2) by auto
  have "ws_runs_short ?t" unfolding l by (intro ws_runs_short_trim collapse_runs_short)
  then have "replace_g re_spaces3 [SPACE, SPACE] None ?t = ?t" by (rule collapse_fixed)
  then have c: "cleanContent ?t = ?t" by (simp add: cleanContent_star_free [OF star])
  have tt: "trim ?t = ?t" by (rule trim_idem)
  from assms(3) have "trim ?l \<noteq> []"
    by (simp add: trim_blank_iff collapse_keeps_text)
  then have "?t \<noteq> []" unfolding l .
  then have ne: "trim ?t \<noteq> []" unfolding tt .
  have "FormattedContent ?t = Some (Rendered [Paragraph [PlainText (trim (cleanContent ?t))]])"
    using star nl ne assms(4-) by (intro single_plain_line) (simp_all only: c tt simp_thms)
  then have second: "FormattedContent ?t = Some (Rendered [Paragraph [PlainText ?t]])"
    by (simp only: c tt)
  have cm: "concat (map span_text [PlainText ?t]) = ?t" by simp
  show ?thesis
    by (rule exI [of _ "[PlainText ?t]"]) (simp only: cm first second simp_thms)
qed

text \<open>The hypotheses of the theorem hold for the line \<open>Water the   plants \<close>.\<close>

theorem plain_text_fixed_point_witness:
  "FormattedContent (str ''Water the   plants '')
     = Some (Rendered [Paragraph [PlainText (str ''Water the  plants'')]])
   \<and> FormattedContent (str ''Water the  plants'')
     = Some (Rendered [Paragraph [PlainText (str ''Water the  plants'')]])"
proof -
  let ?s = "str ''Water the   plants ''"
  have c: "trim (cleanContent ?s) = str ''Water the  plants''"
    by (simp add: char_defs re_defs line_defs cleanContent_def)
  have h: "STAR \<notin> set ?s" "NL \<notin> set ?s" "trim ?s \<noteq> []"
    "h2Match (trim (cleanContent ?s)) = None" "h3Match (trim (cleanContent ?s)) = None"
    "matchedBullet (trim (cleanContent ?s)) = None"
    "numberedMatch (trim (cleanContent ?s)) = None"
    unfolding c by (simp_all add: char_defs re_defs line_defs)
  from plain_text_fixed_point [OF h] obtain sp
    where a: "FormattedContent ?s = Some (Rendered [Paragraph sp])"
      and b: "FormattedContent (concat (map span_text sp)) = Some (Rendered [Paragraph sp])"
    by blast
  have "FormattedContent ?s = Some (Rendered [Paragraph [PlainText (str ''Water the  plants'')]])"
    by (simp add: char_defs re_defs line_defs fc_defs)
  with a have "sp = [PlainText (str ''Water the  plants'')]" by simp
  with a b show ?thesis by simp
qed

text \<open>
  Claim C9 as stated fails. A single space is a non-empty single line without any marker,
  and the formatter returns no node for it; a heading line without emphasis markers gives
  a heading, not a paragraph.
\<close>

theorem blank_line_gives_no_paragraph:
  "str '' '' \<noteq> [] \<and> NL \<notin> set (str '' '') \<and> STAR \<notin> set (str '' '')
   \<and> FormattedContent (str '' '') = Some (Rendered [])
   \<and> FormattedContent (str ''## Soil'') = Some (Rendered [Heading 2 [PlainText (str ''Soil'')]])"
  by (simp add: char_defs re_defs line_defs fc_defs)

section \<open>White space only\<close>

lemma split_nl_sets: "l \<in> set (split_nl s) \<Longrightarrow> set l \<subseteq> set s"
proof (induction s arbitrary: l)
  case Nil
  then show ?case by simp
next
  case (Cons c cs)
  show ?case
  proof (cases "c = NL")
    case True
    with Cons show ?thesis by auto
  next
    case False
    show ?thesis
    proof (cases "split_nl cs")
      case Nil
      with False Cons.prems show ?thesis by simp
    next
      case (Cons h t)
      with False Cons.prems have "l = c # h \<or> l \<in> set t" by simp
      moreover have "set h \<subseteq> set cs" using Cons Cons.IH by simp
      moreover have "l \<in> set t \<Longrightarrow> set l \<subseteq> set cs" using Cons Cons.IH by simp
      ultimately show ?thesis by auto
    qed
  qed
qed

lemma trim_all_space: "list_all is_space l \<Longrightarrow> trim l = []"
  by (simp add: trim_blank_iff filter_empty_conv list_all_iff)

lemma forEach_blank_lines:
  assumes "\<And>l. l \<in> set lines \<Longrightarrow> trim l = []"
  shows "forEach init_state lines = Some init_state"
  using assms
proof (induction lines)
  case Nil
  then show ?case by simp
next
  case (Cons l lines)
  have "trim l = []" by (rule Cons.prems) simp
  then have "processLine init_state l = Some init_state"
    by (simp add: processLine_def flushList_init)
  moreover have "forEach init_state lines = Some init_state"
    by (rule Cons.IH, rule Cons.prems) simp
  ultimately show ?case by simp
qed

text \<open>
  Claim C7. An input that holds white space only produces no nodes: the empty string gives
  the no-render value, every other such input an empty sequence of nodes.
\<close>

theorem whitespace_only_no_nodes:
  "list_all is_space s \<Longrightarrow>
     FormattedContent s = Some (if s = [] then NoRender else Rendered [])"
proof (cases "s = []")
  case True
  then show ?thesis by (simp add: FormattedContent_def)
next
  case False
  assume ws: "list_all is_space s"
  have ns: "\<not> is_space STAR" by (simp add: is_space_def)
  with ws have star: "STAR \<notin> set s" by (auto simp: list_all_iff)
  let ?l = "replace_g re_spaces3 [SPACE, SPACE] None s"
  have l: "cleanContent s = ?l" using star by (rule cleanContent_star_free)
  have "set ?l \<subseteq> set s \<union> set [SPACE, SPACE]" by (rule set_replace_g)
  moreover have "is_space SPACE" by (simp add: is_space_def)
  ultimately have all: "\<And>c. c \<in> set ?l \<Longrightarrow> is_space c"
    using ws by (auto simp: list_all_iff)
  have "trim x = []" if "x \<in> set (split_nl ?l)" for x
  proof -
    from split_nl_sets [OF that] all have "list_all is_space x" by (auto simp: list_all_iff)
    then show ?thesis by (rule trim_all_space)
  qed
  then have "forEach init_state (split_nl ?l) = Some init_state"
    by (rule forEach_blank_lines)
  moreover have "elements init_state = []" by (simp add: init_state_def)
  ultimately show ?thesis using False
    by (simp add: FormattedContent_def l flushList_init)
qed

text \<open>
  The theorem at the empty string, at three spaces and at a mix of tabs, line feeds,
  carriage returns and no-break spaces.
\<close>

theorem whitespace_only_no_nodes_witness:
  "FormattedContent (str []) = Some NoRender
   \<and> FormattedContent (str ''   '') = Some (Rendered [])
   \<and> FormattedContent [9, NL, 13, SPACE, 160, NL, NL] = Some (Rendered [])"
proof -
  have a: "list_all is_space (str [])" and b: "list_all is_space (str ''   '')"
    and c: "list_all is_space [9, NL, 13, SPACE, 160, NL, NL]"
    by (simp_all add: char_defs)
  from whitespace_only_no_nodes [OF a] whitespace_only_no_nodes [OF b]
    whitespace_only_no_nodes [OF c]
  show ?thesis by (simp add: str_def)
qed

section \<open>An open list and its items\<close>

text \<open>
  In every state the line loop reaches, a list is open exactly when items are waiting. So
  the call of \<^verbatim>\<open>flushList\<close> under \<^verbatim>\<open>if (!isInList)\<close> in the bullet and numbered
  branches never finds an item to flush.
\<close>

lemma flushList_closed:
  assumes "isInList st \<longleftrightarrow> listItems st \<noteq> []" and "flushList st = Some st1"
  shows "listItems st1 = [] \<and> \<not> isInList st1"
  using assms by (auto simp: flushList_def push_def split: if_splits option.splits)

lemma push_list_fields: "listItems (push n st) = listItems st \<and> isInList (push n st) = isInList st"
  by (simp add: push_def)

lemma processLine_list_inv:
  assumes inv: "isInList st \<longleftrightarrow> listItems st \<noteq> []"
    and step: "processLine st line = Some st'"
  shows "isInList st' \<longleftrightarrow> listItems st' \<noteq> []"
proof -
  obtain st1 where f: "flushList st = Some st1" using flushList_total by blast
  from flushList_closed [OF inv f] have c: "listItems st1 = []" "\<not> isInList st1" by simp_all
  show ?thesis
  proof (cases "trim line = []")
    case True
    with step f c show ?thesis by (simp add: processLine_def)
  next
    case False
    note ne = this
    show ?thesis
    proof (cases "h2Match (trim line)")
      case (Some a)
      with step ne f c show ?thesis
        by (auto simp: processLine_def push_list_fields split: bind_splits)
    next
      case None
      note h2 = this
      show ?thesis
      proof (cases "h3Match (trim line)")
        case (Some a)
        with step ne h2 f c show ?thesis
          by (auto simp: processLine_def push_list_fields split: bind_splits)
      next
        case None
        note h3 = this
        show ?thesis
        proof (cases "boldHeaderMatch (trim line)")
          case (Some a)
          with step ne h2 h3 f c show ?thesis
            by (auto simp: processLine_def push_list_fields)
        next
          case None
          note bh = this
          show ?thesis
          proof (cases "matchedBullet (trim line)")
            case (Some a)
            with step ne h2 h3 bh f c show ?thesis
              by (auto simp: processLine_def split: if_splits)
          next
            case None
            note mb = this
            show ?thesis
            proof (cases "numberedMatch (trim line)")
              case (Some a)
              with step ne h2 h3 bh mb f c show ?thesis
                by (auto simp: processLine_def split: if_splits)
            next
              case None
              with step ne h2 h3 bh mb f c show ?thesis
                by (auto simp: processLine_def Let_def push_list_fields
                    split: if_splits bind_splits)
            qed
          qed
        qed
      qed
    qed
  qed
qed

lemma forEach_list_inv:
  assumes "isInList st \<longleftrightarrow> listItems st \<noteq> []" and "forEach st lines = Some st'"
  shows "isInList st' \<longleftrightarrow> listItems st' \<noteq> []"
  using assms
proof (induction lines arbitrary: st)
  case Nil
  then show ?case by simp
next
  case (Cons line lines)
  from Cons.prems(2) obtain st1
    where a: "processLine st line = Some st1" and b: "forEach st1 lines = Some st'"
    by (auto split: option.splits)
  from processLine_list_inv [OF Cons.prems(1) a] b show ?case by (rule Cons.IH)
qed

lemma flush_without_open_list:
  assumes "forEach init_state lines = Some st" and "\<not> isInList st"
  shows "flushList st = Some st"
proof -
  have "isInList init_state \<longleftrightarrow> listItems init_state \<noteq> []" by (simp add: init_state_def)
  from forEach_list_inv [OF this assms(1)] assms(2) show ?thesis by (simp add: flushList_def)
qed

section \<open>Bullet lines around a blank line, as the line loop sees them\<close>

text \<open>
  When the lines that reach the line loop are bullet lines, a blank line and more bullet
  lines, the loop closes the first list at the blank line and the result is two bullet
  lists.
\<close>

lemma forEach_append:
  "forEach st (xs @ ys) = (case forEach st xs of None \<Rightarrow> None | Some st1 \<Rightarrow> forEach st1 ys)"
  by (induction xs arbitrary: st) (auto split: option.splits)

lemma bullet_lines_join:
  assumes "list_all2 (\<lambda>l c. matchedBullet (trim l) = Some c) bs cs" and "isInList st"
  shows "forEach st bs = Some (st\<lparr>listItems := listItems st @ map bulletText cs\<rparr>)"
  using assms
proof (induction bs cs arbitrary: st rule: list_all2_induct)
  case Nil
  then show ?case by simp
next
  case (Cons l bs c cs)
  from Cons.hyps(1) Cons.prems
  have "processLine st l = Some (st\<lparr>listItems := listItems st @ [bulletText c]\<rparr>)"
    by (simp add: processLine_bullet)
  moreover have "isInList (st\<lparr>listItems := listItems st @ [bulletText c]\<rparr>)"
    using Cons.prems by simp
  ultimately show ?case using Cons.IH by simp
qed

lemma bullet_lines_open:
  assumes "list_all2 (\<lambda>l c. matchedBullet (trim l) = Some c) bs cs" and "bs \<noteq> []"
    and "\<not> isInList st" and "listItems st = []"
  shows "forEach st bs
           = Some (st\<lparr>isInList := True, listType := bullet, listItems := map bulletText cs\<rparr>)"
proof -
  from assms(1,2) obtain l c bs' cs'
    where bs: "bs = l # bs'" and cs: "cs = c # cs'"
      and l: "matchedBullet (trim l) = Some c"
      and rest: "list_all2 (\<lambda>l c. matchedBullet (trim l) = Some c) bs' cs'"
    by (cases bs; cases cs) auto
  have "flushList st = Some st" using assms(4) by (simp add: flushList_def)
  with l assms(3,4)
  have "processLine st l
          = Some (st\<lparr>isInList := True, listType := bullet, listItems := [bulletText c]\<rparr>)"
    by (simp add: processLine_bullet)
  moreover
  have "forEach (st\<lparr>isInList := True, listType := bullet, listItems := [bulletText c]\<rparr>) bs'
          = Some (st\<lparr>isInList := True, listType := bullet,
                       listItems := [bulletText c] @ map bulletText cs'\<rparr>)"
    using bullet_lines_join [OF rest,
        of "st\<lparr>isInList := True, listType := bullet, listItems := [bulletText c]\<rparr>"]
    by simp
  ultimately show ?thesis unfolding bs cs by simp
qed

lemma blank_line_between_bullet_lines:
  assumes "list_all2 (\<lambda>l c. matchedBullet (trim l) = Some c) bs1 cs1" and "bs1 \<noteq> []"
    and "list_all2 (\<lambda>l c. matchedBullet (trim l) = Some c) bs2 cs2" and "bs2 \<noteq> []"
    and "trim blank = []"
    and "those (map formatInlineText (map bulletText cs1)) = Some items1"
    and "those (map formatInlineText (map bulletText cs2)) = Some items2"
  shows "map_option elements (forEach init_state (bs1 @ blank # bs2) \<bind> flushList)
           = Some [BulletList items1, BulletList items2]"
proof -
  define s1 where
    "s1 = init_state\<lparr>isInList := True, listType := bullet, listItems := map bulletText cs1\<rparr>"
  define s2 where
    "s2 = init_state\<lparr>elements := [BulletList items1]\<rparr>"
  define s3 where
    "s3 = s2\<lparr>isInList := True, listType := bullet, listItems := map bulletText cs2\<rparr>"
  from assms(1,2) have c1: "cs1 \<noteq> []" by (cases bs1; cases cs1) auto
  from assms(3,4) have c2: "cs2 \<noteq> []" by (cases bs2; cases cs2) auto
  have a: "forEach init_state bs1 = Some s1"
    unfolding s1_def by (rule bullet_lines_open [OF assms(1,2)]) (simp_all add: init_state_def)
  have b: "processLine s1 blank = Some s2"
    using assms(5,6) c1
    by (simp add: processLine_def flushList_def s1_def s2_def push_def init_state_def)
  have c: "forEach s2 bs2 = Some s3"
    unfolding s3_def by (rule bullet_lines_open [OF assms(3,4)]) (simp_all add: s2_def init_state_def)
  have d: "flushList s3 = Some (s2\<lparr>elements := [BulletList items1, BulletList items2]\<rparr>)"
    using assms(7) c2
    by (simp add: flushList_def s3_def s2_def push_def init_state_def)
  have "forEach init_state (bs1 @ blank # bs2) = Some s3"
    by (simp add: forEach_append a b c)
  with d show ?thesis by simp
qed

section \<open>The formatter on the inputs of the specification\<close>

text \<open>
  Claim C1. A numbered line that follows bullet lines directly should close the bullet list
  and open a numbered list. On the input of a bullet line \<open>- a\<close> followed by the numbered
  line \<open>1. b\<close> the formatter returns one bullet list that holds both items: the flush
  before \<^verbatim>\<open>listType = 'numbered'\<close> is only reached when no list is open.
\<close>

theorem numbered_line_joins_bullet_list:
  "FormattedContent (str ''- a'' @ NL # str ''1. b'') =
     Some (Rendered [BulletList [[PlainText (str ''a'')], [PlainText (str ''b'')]]])"
  by (simp add: char_defs re_defs line_defs fc_defs)

text \<open>The mirrored input: a bullet line behind a numbered line joins the numbered list.\<close>

lemma bullet_line_joins_numbered_list:
  "FormattedContent (str ''1. a'' @ NL # str ''- b'') =
     Some (Rendered [NumberedList [[PlainText (str ''a'')], [PlainText (str ''b'')]]])"
  by (simp add: char_defs re_defs line_defs fc_defs)

text \<open>
  Claim C2. Two non-empty input lines should never end up in one node. On the two lines
  \<open>a \<close> and \<open> b\<close> the pre-cleaning pass replaces the three white-space code units
  around the line feed by two spaces, and the formatter returns one paragraph.
\<close>

theorem cleaning_merges_two_lines:
  "FormattedContent (str ''a '' @ NL # str '' b'') =
     Some (Rendered [Paragraph [PlainText (str ''a  b'')]])"
  by (simp add: char_defs re_defs line_defs fc_defs)

text \<open>
  Claim C3, as amended. The line \<open>**Warning:** Use less water\<close> is not a header; the
  formatter returns a single paragraph whose only span is the plain text
  \<open>Warning: Use less water\<close>.
\<close>

theorem warning_line_plain_paragraph:
  "FormattedContent (str ''**Warning:** Use less water'') =
     Some (Rendered [Paragraph [PlainText (str ''Warning: Use less water'')]])"
  by (simp add: char_defs re_defs line_defs fc_defs)

text \<open>Claim C3 as stated fails: the paragraph has no \<open>Emphasis\<close> span.\<close>

theorem warning_line_no_emphasis:
  "FormattedContent (str ''**Warning:** Use less water'') \<noteq>
     Some (Rendered [Paragraph [Emphasis (str ''Warning''),
                                PlainText (str '': Use less water'')]])"
  by (simp add: char_defs re_defs line_defs fc_defs)

text \<open>
  Claim C4. The triple markers of \<open>Plant health is ***excellent***\<close> should be
  normalized to double markers and give an \<open>Emphasis\<close> span. The formatter returns a
  single paragraph whose only span is the plain text \<open>Plant health is excellent\<close>: the
  pre-cleaning pass has removed both runs of three asterisks before the inline
  formatting sees them.
\<close>

theorem triple_marker_plain_paragraph:
  "FormattedContent (str ''Plant health is ***excellent***'') =
     Some (Rendered [Paragraph [PlainText (str ''Plant health is excellent'')]])"
  by (simp add: char_defs re_defs line_defs fc_defs)

text \<open>
  For comparison: \<^verbatim>\<open>formatInlineText\<close> alone, with its replacement of three or more
  asterisks by two, gives the spans of the claim.
\<close>

lemma triple_marker_inline_alone:
  "formatInlineText (str ''Plant health is ***excellent***'') =
     Some [PlainText (str ''Plant health is ''), Emphasis (str ''excellent'')]"
  by (simp add: char_defs re_defs formatInlineText_def boldLoop.simps)

text \<open>
  Claim C5. A line that is one emphasis-wrapped run followed by a colon should become a
  level-3 heading without the colon. On \<open>**Header**:\<close> the formatter returns a
  paragraph with the text \<open>Header:\<close>, because the pre-cleaning pass has removed the
  asterisks before the colon.
\<close>

theorem bold_header_with_colon_is_paragraph:
  "FormattedContent (str ''**Header**:'') =
     Some (Rendered [Paragraph [PlainText (str ''Header:'')]])"
  by (simp add: char_defs re_defs line_defs fc_defs)

text \<open>
  For comparison: without the colon the line is a level-3 heading, and with the colon
  inside the markers the line is a paragraph as well.
\<close>

lemma bold_header_without_colon:
  "FormattedContent (str ''**Header**'') =
     Some (Rendered [Heading 3 [PlainText (str ''Header'')]])"
  by (simp add: char_defs re_defs line_defs fc_defs)

lemma bold_header_colon_inside:
  "FormattedContent (str ''**Header:**'') =
     Some (Rendered [Paragraph [PlainText (str ''Header:'')]])"
  by (simp add: char_defs re_defs line_defs fc_defs)

text \<open>
  Claim C8. Bullet lines, one blank line and more bullet lines should give two bullet
  lists. On the bullet line \<open>- a \<close> (with a space at its end), an empty line and the
  bullet line \<open>- b\<close> the formatter returns one bullet list with the single item
  \<open>a  - b\<close>: the pre-cleaning pass has replaced the space and the two line feeds by
  two spaces, so the blank line never reaches the line loop.
\<close>

theorem blank_line_lost_in_cleaning:
  "FormattedContent (str ''- a '' @ NL # NL # str ''- b'') =
     Some (Rendered [BulletList [[PlainText (str ''a  - b'')]]])"
  by (simp add: char_defs re_defs line_defs fc_defs)

text \<open>
  For comparison: when no white space touches the empty line, the line loop sees it and
  closes the first list.
\<close>

lemma blank_line_separates_lists:
  "FormattedContent (str ''- a'' @ NL # NL # str ''- b'') =
     Some (Rendered [BulletList [[PlainText (str ''a'')]], BulletList [[PlainText (str ''b'')]]])"
  by (simp add: char_defs re_defs line_defs fc_defs)

text \<open>The same loss with the white space on the blank line itself.\<close>

lemma blank_line_with_space_lost:
  "FormattedContent (str ''- a'' @ NL # SPACE # NL # str ''- b'') =
     Some (Rendered [BulletList [[PlainText (str ''a  - b'')]]])"
  by (simp add: char_defs re_defs line_defs fc_defs)

end
